theory Spec2Isabelle
  imports Complex_Main "HOL-Library.Sublist"
begin

section \<open>JavaScript strings and numbers\<close>

text \<open>
  Strings are byte lists restricted to ASCII. The helpers below are the \<^verbatim>\<open>String.prototype\<close>
  methods the crawler calls: \<^verbatim>\<open>startsWith\<close> is \<^const>\<open>prefix\<close>, \<^verbatim>\<open>endsWith\<close> is
  \<^const>\<open>suffix\<close>.
\<close>

definition toLowerChar :: "char \<Rightarrow> char" where
  "toLowerChar c =
     (case map_of (zip ''ABCDEFGHIJKLMNOPQRSTUVWXYZ'' ''abcdefghijklmnopqrstuvwxyz'') c of
        Some d \<Rightarrow> d
      | None \<Rightarrow> c)"

definition toLowerCase :: "string \<Rightarrow> string" where
  "toLowerCase s = map toLowerChar s"

definition isSpace :: "char \<Rightarrow> bool" where
  "isSpace c = (c \<in> set [CHR '' '', CHR 0x09, CHR 0x0A, CHR 0x0B, CHR 0x0C, CHR 0x0D])"

definition trim :: "string \<Rightarrow> string" where
  "trim s = rev (dropWhile isSpace (rev (dropWhile isSpace s)))"

fun includes_str :: "string \<Rightarrow> string \<Rightarrow> bool" where
  "includes_str [] sub = (sub = [])"
| "includes_str (c # cs) sub = (prefix sub (c # cs) \<or> includes_str cs sub)"

text \<open>\<^verbatim>\<open>s.split(sep)\<close> for a one-character separator.\<close>

fun split_char :: "char \<Rightarrow> string \<Rightarrow> string list" where
  "split_char sep [] = [[]]"
| "split_char sep (c # cs) =
     (if c = sep then [] # split_char sep cs
      else (case split_char sep cs of
              [] \<Rightarrow> [[c]]
            | w # ws \<Rightarrow> (c # w) # ws))"

text \<open>\<^verbatim>\<open>s.split(/\s+/).filter(Boolean)\<close>: the maximal runs of non-space characters.\<close>

fun split_spaces :: "string \<Rightarrow> string \<Rightarrow> string list" where
  "split_spaces acc [] = (if acc = [] then [] else [acc])"
| "split_spaces acc (c # cs) =
     (if isSpace c then (if acc = [] then split_spaces [] cs else acc # split_spaces [] cs)
      else split_spaces (acc @ [c]) cs)"

text \<open>\<^verbatim>\<open>xs.join(sep)\<close>.\<close>

fun join :: "string \<Rightarrow> string list \<Rightarrow> string" where
  "join sep [] = []"
| "join sep [x] = x"
| "join sep (x # y # ys) = x @ sep @ join sep (y # ys)"

text \<open>\<^verbatim>\<open>s.replace(/\/+$/, '')\<close>: drop every trailing slash.\<close>

definition strip_trailing_slashes :: "string \<Rightarrow> string" where
  "strip_trailing_slashes s = rev (dropWhile (\<lambda>c. c = CHR ''/'') (rev s))"

definition digit_char :: "nat \<Rightarrow> char" where
  "digit_char d = ''0123456789'' ! d"

fun show_nat :: "nat \<Rightarrow> string" where
  "show_nat n = (if n < 10 then [digit_char n] else show_nat (n div 10) @ [digit_char (n mod 10)])"

declare show_nat.simps [simp del]

definition show_int :: "int \<Rightarrow> string" where
  "show_int i = (if i < 0 then ''-'' @ show_nat (nat (- i)) else show_nat (nat i))"

text \<open>
  A timer duration in milliseconds. \<^verbatim>\<open>1000 / x\<close> is a rational when \<open>x\<close> is a non-zero
  number and is \<^verbatim>\<open>Infinity\<close> or \<^verbatim>\<open>NaN\<close> when \<open>x\<close> is zero or missing.
\<close>

datatype delay = Ms rat | NotFinite

definition delay_div :: "rat \<Rightarrow> rat option \<Rightarrow> delay" where
  "delay_div a b = (case b of None \<Rightarrow> NotFinite | Some x \<Rightarrow> if x = 0 then NotFinite else Ms (a / x))"

fun half :: "delay \<Rightarrow> delay" where
  "half (Ms d) = Ms (d / 2)"
| "half NotFinite = NotFinite"

text \<open>A thrown \<^verbatim>\<open>Error\<close>: its name and its message.\<close>

datatype js_error = JsError (err_name: string) (err_message: string)

section \<open>The platform: URLs, HTTP, regular expressions, the HTML parser\<close>

text \<open>
  What \<^verbatim>\<open>new URL(...)\<close> returns, for a URL with an authority: \<^verbatim>\<open>protocol\<close> ends with the
  colon, \<^verbatim>\<open>search\<close> and \<^verbatim>\<open>hash\<close> are empty or start with their delimiter, and
  \<^verbatim>\<open>href\<close> is the serialisation of the components.
\<close>

record url =
  protocol :: string
  hostname :: string
  port :: string
  pathname :: string
  search :: string
  hash :: string

definition href :: "url \<Rightarrow> string" where
  "href u = protocol u @ ''//'' @ hostname u @ (if port u = [] then [] else '':'' @ port u)
              @ pathname u @ search u @ hash u"

record response =
  status :: int
  text_body :: "js_error + string"

record head_response =
  head_status :: int
  location :: "string option"

record anchor =
  a_href :: string
  a_text :: string
  a_rel :: "string option"

record redirect_step =
  step_url :: string
  step_status :: int

datatype link_type = internal | external

record link_result =
  lr_sourceUrl :: string
  lr_targetUrl :: string
  lr_status :: int
  lr_redirectChain :: string
  lr_type :: link_type
  lr_anchorText :: string
  lr_rel :: string
  lr_depth :: nat
  lr_error :: "string option"
  lr_retryCount :: "nat option"

datatype log_type = info | success | error | progress

text \<open>
  What a crawl does, in order: every timer it waits on, every request it sends (with the
  answer it got) and every server-sent event it writes.
\<close>

datatype event =
    EvSleep delay
  | EvGet string nat "js_error + response"
  | EvHead string "js_error + head_response"
  | EvLog log_type string
  | EvProgress nat nat string
  | EvResult link_result
  | EvDone nat nat

text \<open>
  The environment of one crawl. \<open>parseURL url base\<close> is \<^verbatim>\<open>new URL(url, base)\<close>, \<open>None\<close>
  when it throws. \<open>compileRegExp\<close> is \<^verbatim>\<open>new RegExp(s)\<close>, \<open>None\<close> when it throws, a
  compiled expression being its \<^verbatim>\<open>test\<close> method. \<open>cheerio_anchors\<close> are the elements
  \<^verbatim>\<open>$('a[href]')\<close> selects in an HTML document, \<open>cheerio_locs\<close> the texts of the
  elements \<^verbatim>\<open>$('loc')\<close> selects in XML mode. The network and the client's connection
  answer from everything that happened so far: \<open>http_get\<close> and \<open>http_head\<close> are one
  request each, \<open>isClosed\<close> is the flag the \<^verbatim>\<open>close\<close> handler of the response sets.
\<close>

record env =
  parseURL :: "string \<Rightarrow> string option \<Rightarrow> url option"
  compileRegExp :: "string \<Rightarrow> (string \<Rightarrow> bool) option"
  cheerio_anchors :: "string \<Rightarrow> anchor list"
  cheerio_locs :: "string \<Rightarrow> string list"
  http_get :: "event list \<Rightarrow> string \<Rightarrow> js_error + response"
  http_head :: "event list \<Rightarrow> string \<Rightarrow> js_error + head_response"
  isClosed :: "event list \<Rightarrow> bool"

section \<open>url-validator.ts\<close>

text \<open>The test \<^verbatim>\<open>/^172\.(1[6-9]|2\d|3[01])\./\<close>.\<close>

definition is_172_private :: "string \<Rightarrow> bool" where
  "is_172_private h =
     (prefix ''172.'' h \<and>
      (case drop 4 h of
         a # b # c # _ \<Rightarrow>
           c = CHR ''.'' \<and>
           ((a = CHR ''1'' \<and> b \<in> set ''6789'') \<or>
            (a = CHR ''2'' \<and> b \<in> set ''0123456789'') \<or>
            (a = CHR ''3'' \<and> b \<in> set ''01''))
       | _ \<Rightarrow> False))"

definition isAllowedUrl :: "env \<Rightarrow> string \<Rightarrow> bool" where
  "isAllowedUrl e u =
     (case parseURL e u None of
        None \<Rightarrow> False
      | Some parsed \<Rightarrow>
          if protocol parsed \<notin> set [''http:'', ''https:''] then False
          else let h = toLowerCase (hostname parsed) in
            if h = ''localhost'' \<or> h = ''127.0.0.1'' \<or> h = ''::1'' then False
            else if suffix ''.localhost'' h then False
            else if prefix ''10.'' h then False
            else if prefix ''192.168.'' h then False
            else if is_172_private h then False
            else if prefix ''169.254.'' h then False
            else if h = ''0.0.0.0'' then False
            else True)"

definition filterAllowedUrls :: "env \<Rightarrow> string list \<Rightarrow> string list" where
  "filterAllowedUrls e urls = filter (isAllowedUrl e) urls"

section \<open>link-analyzer.ts\<close>

definition isInternalLink :: "env \<Rightarrow> string \<Rightarrow> string \<Rightarrow> bool" where
  "isInternalLink e baseUrl targetUrl =
     (case parseURL e baseUrl None of
        None \<Rightarrow> False
      | Some base \<Rightarrow>
          (case parseURL e targetUrl (Some baseUrl) of
             None \<Rightarrow> False
           | Some target \<Rightarrow> hostname base = hostname target))"

definition normalizeUrl :: "env \<Rightarrow> string \<Rightarrow> string option \<Rightarrow> string option" where
  "normalizeUrl e u baseUrl =
     (case parseURL e u baseUrl of
        None \<Rightarrow> None
      | Some parsed0 \<Rightarrow>
          let parsed = parsed0\<lparr>hash := []\<rparr>;
              normalized = href parsed
          in Some (if suffix ''/'' normalized \<and> pathname parsed \<noteq> ''/''
                   then butlast normalized else normalized))"

record redirect_info =
  ri_chain :: "redirect_step list"
  ri_finalUrl :: string
  ri_finalStatus :: int
  ri_error :: "string option"

text \<open>
  The \<^verbatim>\<open>while (redirectCount < maxRedirects)\<close> loop of \<^verbatim>\<open>getRedirectChain\<close>. A request
  that throws ends the walk with the error's message (\<^verbatim>\<open>Timeout\<close> for an abort), and so
  does a \<^verbatim>\<open>Location\<close> that \<^verbatim>\<open>new URL\<close> refuses, which throws inside the same
  \<^verbatim>\<open>try\<close>.
\<close>

function getRedirectChain_loop ::
  "env \<Rightarrow> nat \<Rightarrow> redirect_step list \<Rightarrow> string \<Rightarrow> nat \<Rightarrow> event list \<Rightarrow> redirect_info \<times> event list"
where
  "getRedirectChain_loop e maxRedirects chain currentUrl redirectCount tr =
     (if redirectCount < maxRedirects then
        (case http_head e tr currentUrl of
           Inl err \<Rightarrow>
             (\<lparr>ri_chain = chain, ri_finalUrl = currentUrl, ri_finalStatus = 0,
               ri_error = Some (if err_name err = ''AbortError'' then ''Timeout'' else err_message err)\<rparr>,
              tr @ [EvHead currentUrl (Inl err)])
         | Inr resp \<Rightarrow>
             (if 300 \<le> head_status resp \<and> head_status resp < 400 \<and> location resp \<noteq> None
                 \<and> location resp \<noteq> Some [] then
                (case parseURL e (the (location resp)) (Some currentUrl) of
                   None \<Rightarrow>
                     (\<lparr>ri_chain = chain @ [\<lparr>step_url = currentUrl, step_status = head_status resp\<rparr>],
                       ri_finalUrl = currentUrl, ri_finalStatus = 0, ri_error = Some ''Invalid URL''\<rparr>,
                      tr @ [EvHead currentUrl (Inr resp)])
                 | Some u \<Rightarrow>
                     getRedirectChain_loop e maxRedirects
                       (chain @ [\<lparr>step_url = currentUrl, step_status = head_status resp\<rparr>])
                       (href u) (redirectCount + 1) (tr @ [EvHead currentUrl (Inr resp)]))
              else
                (\<lparr>ri_chain = chain @ [\<lparr>step_url = currentUrl, step_status = head_status resp\<rparr>],
                  ri_finalUrl = currentUrl, ri_finalStatus = head_status resp, ri_error = None\<rparr>,
                 tr @ [EvHead currentUrl (Inr resp)])))
      else
        (\<lparr>ri_chain = chain, ri_finalUrl = currentUrl, ri_finalStatus = 0,
          ri_error = Some ''Too many redirects''\<rparr>, tr))"
  by pat_completeness auto
termination
  by (relation "measure (\<lambda>(e, maxRedirects, chain, currentUrl, redirectCount, tr). maxRedirects - redirectCount)")
     auto

declare getRedirectChain_loop.simps [simp del]

text \<open>\<^verbatim>\<open>getRedirectChain(url)\<close> with its default \<^verbatim>\<open>maxRedirects = 10\<close>.\<close>

definition getRedirectChain :: "env \<Rightarrow> event list \<Rightarrow> string \<Rightarrow> redirect_info \<times> event list" where
  "getRedirectChain e tr u = getRedirectChain_loop e 10 [] u 0 tr"

definition isSitemap :: "string \<Rightarrow> bool" where
  "isSitemap html =
     (let trimmed = toLowerCase (trim html)
      in prefix ''<?xml'' trimmed \<or> includes_str trimmed ''<urlset''
           \<or> includes_str trimmed ''<sitemapindex'')"

record link_info =
  li_sourceUrl :: string
  li_targetUrl :: string
  li_anchorText :: string
  li_rel :: "string list"
  li_isInternal :: bool

text \<open>The callback of \<^verbatim>\<open>$('loc').each\<close>, run over the elements in document order.\<close>

fun sitemap_each :: "env \<Rightarrow> string \<Rightarrow> string list \<Rightarrow> string list \<Rightarrow> link_info list" where
  "sitemap_each e baseUrl seenUrls [] = []"
| "sitemap_each e baseUrl seenUrls (t # ts) =
     (if trim t = [] then sitemap_each e baseUrl seenUrls ts
      else (case normalizeUrl e (trim t) None of
              None \<Rightarrow> sitemap_each e baseUrl seenUrls ts
            | Some normalizedUrl \<Rightarrow>
                if normalizedUrl = [] then sitemap_each e baseUrl seenUrls ts
                else if normalizedUrl \<in> set seenUrls then sitemap_each e baseUrl seenUrls ts
                else \<lparr>li_sourceUrl = baseUrl, li_targetUrl = normalizedUrl, li_anchorText = [],
                       li_rel = [], li_isInternal = isInternalLink e baseUrl normalizedUrl\<rparr>
                     # sitemap_each e baseUrl (normalizedUrl # seenUrls) ts))"

definition extractLinksFromSitemap :: "env \<Rightarrow> string \<Rightarrow> string \<Rightarrow> link_info list" where
  "extractLinksFromSitemap e xml baseUrl = sitemap_each e baseUrl [] (cheerio_locs e xml)"

text \<open>The callback of \<^verbatim>\<open>$('a[href]').each\<close>.\<close>

fun anchor_each :: "env \<Rightarrow> string \<Rightarrow> string list \<Rightarrow> anchor list \<Rightarrow> link_info list" where
  "anchor_each e baseUrl seenUrls [] = []"
| "anchor_each e baseUrl seenUrls (a # as) =
     (if a_href a = [] then anchor_each e baseUrl seenUrls as
      else if prefix ''javascript:'' (a_href a) \<or> prefix ''mailto:'' (a_href a)
              \<or> prefix ''tel:'' (a_href a) \<or> prefix ''#'' (a_href a)
        then anchor_each e baseUrl seenUrls as
      else (case normalizeUrl e (a_href a) (Some baseUrl) of
              None \<Rightarrow> anchor_each e baseUrl seenUrls as
            | Some normalizedUrl \<Rightarrow>
                if normalizedUrl = [] then anchor_each e baseUrl seenUrls as
                else if normalizedUrl \<in> set seenUrls then anchor_each e baseUrl seenUrls as
                else \<lparr>li_sourceUrl = baseUrl, li_targetUrl = normalizedUrl,
                       li_anchorText = take 200 (trim (a_text a)),
                       li_rel = split_spaces [] (case a_rel a of None \<Rightarrow> [] | Some r \<Rightarrow> r),
                       li_isInternal = isInternalLink e baseUrl normalizedUrl\<rparr>
                     # anchor_each e baseUrl (normalizedUrl # seenUrls) as))"

definition extractLinks :: "env \<Rightarrow> string \<Rightarrow> string \<Rightarrow> link_info list" where
  "extractLinks e html baseUrl =
     (if isSitemap html then extractLinksFromSitemap e html baseUrl
      else anchor_each e baseUrl [] (cheerio_anchors e html))"

text \<open>The separator is a space, the arrow U+2192 in UTF-8, and a space.\<close>

definition formatRedirectChain :: "redirect_step list \<Rightarrow> string" where
  "formatRedirectChain chain =
     join ([CHR '' '', CHR 0xE2, CHR 0x86, CHR 0x92, CHR '' '']) (map (\<lambda>step. show_int (step_status step)) chain)"

section \<open>The retrying fetcher\<close>

record request_settings =
  rs_timeout :: int
  rs_retries :: int

text \<open>
  The \<^verbatim>\<open>for (attempt = 0; attempt <= retries; attempt++)\<close> loop of \<^verbatim>\<open>fetchWithRetry\<close>, the
  same in both handlers. \<open>Inl lastError\<close> is \<^verbatim>\<open>throw lastError\<close>, with \<open>None\<close> for
  \<^verbatim>\<open>null\<close>. A failed last attempt falls out of the \<^verbatim>\<open>catch\<close> block into the loop's
  increment, which ends the loop.
\<close>

function fetchWithRetry_loop ::
  "env \<Rightarrow> string \<Rightarrow> int \<Rightarrow> nat \<Rightarrow> js_error option \<Rightarrow> event list
     \<Rightarrow> (js_error option + response \<times> nat) \<times> event list"
where
  "fetchWithRetry_loop e u retries attempt lastError tr =
     (if int attempt \<le> retries then
        (case http_get e tr u of
           Inr resp \<Rightarrow>
             (if status resp \<ge> 500 \<and> int attempt < retries then
                fetchWithRetry_loop e u retries (attempt + 1)
                  (Some (JsError ''Error'' (''Server error: '' @ show_int (status resp))))
                  (tr @ [EvGet u attempt (Inr resp), EvSleep (Ms (1000 * (of_nat attempt + 1)))])
              else (Inr (resp, attempt), tr @ [EvGet u attempt (Inr resp)]))
         | Inl err \<Rightarrow>
             (if int attempt < retries then
                fetchWithRetry_loop e u retries (attempt + 1) (Some err)
                  (tr @ [EvGet u attempt (Inl err), EvSleep (Ms (1000 * (of_nat attempt + 1)))])
              else
                fetchWithRetry_loop e u retries (attempt + 1) (Some err)
                  (tr @ [EvGet u attempt (Inl err)])))
      else (Inl lastError, tr))"
  by pat_completeness auto
termination
  by (relation "measure (\<lambda>(e, u, retries, attempt, lastError, tr). nat (retries + 1 - int attempt))")
     auto

declare fetchWithRetry_loop.simps [simp del]

definition fetchWithRetry ::
  "env \<Rightarrow> string \<Rightarrow> request_settings \<Rightarrow> event list
     \<Rightarrow> (js_error option + response \<times> nat) \<times> event list" where
  "fetchWithRetry e u settings tr = fetchWithRetry_loop e u (rs_retries settings) 0 None tr"

section \<open>The crawl loop of the two handlers\<close>

record frontier_item =
  fi_url :: string
  fi_depth :: nat
  fi_sourceUrl :: "string option"

text \<open>
  What the loop reads besides its own state. \<open>c_maxUrls\<close> and \<open>c_maxDepth\<close> are \<open>None\<close> for
  \<^verbatim>\<open>undefined\<close>, with which every comparison is false.
\<close>

record crawl_config =
  c_maxUrls :: "int option"
  c_delayMs :: delay
  c_urlFilterRegex :: "(string \<Rightarrow> bool) option"
  c_pathIncludes :: "string list"
  c_pathExcludes :: "string list"
  c_recursive :: bool
  c_maxDepth :: "int option"
  c_sameDomainOnly :: bool
  c_baseDomains :: "string list"
  c_settings :: request_settings

record crawl_state =
  results :: "link_result list"
  visited :: "string list"
  queue :: "frontier_item list"
  trace :: "event list"

text \<open>\<^verbatim>\<open>emit(eventName, data)\<close> writes nothing once the connection is closed.\<close>

definition emit :: "env \<Rightarrow> event list \<Rightarrow> event \<Rightarrow> event list" where
  "emit e tr ev = (if isClosed e tr then tr else tr @ [ev])"

text \<open>\<^verbatim>\<open>n < m\<close> and \<^verbatim>\<open>n >= m\<close> for a length \<open>n\<close> and a number \<open>m\<close> that may be undefined.\<close>

definition js_less :: "nat \<Rightarrow> int option \<Rightarrow> bool" where
  "js_less n m = (case m of None \<Rightarrow> False | Some k \<Rightarrow> int n < k)"

definition js_ge :: "nat \<Rightarrow> int option \<Rightarrow> bool" where
  "js_ge n m = (case m of None \<Rightarrow> False | Some k \<Rightarrow> int n \<ge> k)"

definition path_matches :: "string \<Rightarrow> string \<Rightarrow> bool" where
  "path_matches entry path =
     (let p = strip_trailing_slashes entry in path = p \<or> prefix (p @ ''/'') path)"

definition matchesPathFilter :: "env \<Rightarrow> string list \<Rightarrow> string list \<Rightarrow> string \<Rightarrow> bool" where
  "matchesPathFilter e pathIncludes pathExcludes u =
     (case parseURL e u None of
        None \<Rightarrow> True
      | Some parsed \<Rightarrow>
          if list_ex (\<lambda>ex. path_matches ex (pathname parsed)) pathExcludes then False
          else if pathIncludes \<noteq> [] then list_ex (\<lambda>inc. path_matches inc (pathname parsed)) pathIncludes
          else True)"

text \<open>The two filter tests that make the loops \<^verbatim>\<open>continue\<close>.\<close>

definition filtered_out :: "env \<Rightarrow> crawl_config \<Rightarrow> string \<Rightarrow> bool" where
  "filtered_out e cfg u =
     (if (case c_urlFilterRegex cfg of None \<Rightarrow> False | Some test \<Rightarrow> \<not> test u) then True
      else \<not> matchesPathFilter e (c_pathIncludes cfg) (c_pathExcludes cfg) u)"

text \<open>
  The body of \<^verbatim>\<open>for (const link of links)\<close> after the filters: resolve the redirect chain,
  push and stream the result, enqueue the link when the recursion rules allow it, sleep.
  The second component is the exception \<^verbatim>\<open>new URL(link.targetUrl)\<close> throws, if it does.
\<close>

definition process_link ::
  "env \<Rightarrow> crawl_config \<Rightarrow> frontier_item \<Rightarrow> nat \<Rightarrow> link_info \<Rightarrow> crawl_state
     \<Rightarrow> crawl_state \<times> js_error option" where
  "process_link e cfg item retryCount link st =
     (let redirectInfo = getRedirectChain e (trace st) (li_targetUrl link);
          result = \<lparr>lr_sourceUrl = fi_url item, lr_targetUrl = li_targetUrl link,
                    lr_status = ri_finalStatus (fst redirectInfo),
                    lr_redirectChain = formatRedirectChain (ri_chain (fst redirectInfo)),
                    lr_type = (if li_isInternal link then internal else external),
                    lr_anchorText = li_anchorText link,
                    lr_rel = join '', '' (li_rel link),
                    lr_depth = fi_depth item,
                    lr_error = ri_error (fst redirectInfo),
                    lr_retryCount = Some retryCount\<rparr>;
          st1 = st\<lparr>results := results st @ [result],
                   trace := emit e (snd redirectInfo) (EvResult result)\<rparr>
      in if c_recursive cfg \<and> li_isInternal link \<and> js_less (fi_depth item) (c_maxDepth cfg)
            \<and> li_targetUrl link \<notin> set (visited st1) then
           (case parseURL e (li_targetUrl link) None of
              None \<Rightarrow> (st1, Some (JsError ''TypeError'' ''Invalid URL''))
            | Some target \<Rightarrow>
                if \<not> c_sameDomainOnly cfg \<or> hostname target \<in> set (c_baseDomains cfg) then
                  (st1\<lparr>visited := visited st1 @ [li_targetUrl link],
                       queue := queue st1 @ [\<lparr>fi_url = li_targetUrl link, fi_depth = fi_depth item + 1,
                                               fi_sourceUrl = None\<rparr>],
                       trace := trace st1 @ [EvSleep (half (c_delayMs cfg))]\<rparr>, None)
                else (st1\<lparr>trace := trace st1 @ [EvSleep (half (c_delayMs cfg))]\<rparr>, None))
         else (st1\<lparr>trace := trace st1 @ [EvSleep (half (c_delayMs cfg))]\<rparr>, None))"

fun process_links ::
  "env \<Rightarrow> crawl_config \<Rightarrow> frontier_item \<Rightarrow> nat \<Rightarrow> link_info list \<Rightarrow> crawl_state
     \<Rightarrow> crawl_state \<times> js_error option" where
  "process_links e cfg item retryCount [] st = (st, None)"
| "process_links e cfg item retryCount (link # rest) st =
     (if js_ge (length (results st)) (c_maxUrls cfg) \<or> isClosed e (trace st) then (st, None)
      else if filtered_out e cfg (li_targetUrl link) then process_links e cfg item retryCount rest st
      else (case process_link e cfg item retryCount link st of
              (st', Some err) \<Rightarrow> (st', Some err)
            | (st', None) \<Rightarrow> process_links e cfg item retryCount rest st'))"

text \<open>The \<^verbatim>\<open>catch\<close> block of one page: one result with status 0 and the message.\<close>

definition push_error :: "env \<Rightarrow> frontier_item \<Rightarrow> string \<Rightarrow> crawl_state \<Rightarrow> crawl_state" where
  "push_error e item msg st =
     (let errorResult = \<lparr>lr_sourceUrl = (case fi_sourceUrl item of
                                            None \<Rightarrow> fi_url item
                                          | Some s \<Rightarrow> if s = [] then fi_url item else s),
                         lr_targetUrl = fi_url item, lr_status = 0, lr_redirectChain = [],
                         lr_type = internal, lr_anchorText = [], lr_rel = [],
                         lr_depth = fi_depth item, lr_error = Some msg, lr_retryCount = None\<rparr>;
          tr1 = emit e (trace st) (EvResult errorResult);
          tr2 = emit e tr1 (EvLog error (''Error fetching '' @ fi_url item @ '': '' @ msg))
      in st\<lparr>results := results st @ [errorResult], trace := tr2\<rparr>)"

text \<open>\<^verbatim>\<open>error instanceof Error ? error.message : 'Unknown error'\<close>.\<close>

definition caught_message :: "js_error option \<Rightarrow> string" where
  "caught_message err = (case err of None \<Rightarrow> ''Unknown error'' | Some x \<Rightarrow> err_message x)"

text \<open>The \<^verbatim>\<open>try\<close> block of one page and its \<^verbatim>\<open>catch\<close>.\<close>

definition fetch_page :: "env \<Rightarrow> crawl_config \<Rightarrow> frontier_item \<Rightarrow> crawl_state \<Rightarrow> crawl_state" where
  "fetch_page e cfg item st =
     (let tr1 = (if length (results st) > 0 then trace st @ [EvSleep (c_delayMs cfg)] else trace st);
          fetched = fetchWithRetry e (fi_url item) (c_settings cfg) tr1
      in case fst fetched of
           Inl err \<Rightarrow> push_error e item (caught_message err) (st\<lparr>trace := snd fetched\<rparr>)
         | Inr (resp, retryCount) \<Rightarrow>
             (case text_body resp of
                Inl err \<Rightarrow> push_error e item (err_message err) (st\<lparr>trace := snd fetched\<rparr>)
              | Inr html \<Rightarrow>
                  let links = extractLinks e html (fi_url item);
                      tr2 = emit e (snd fetched)
                              (EvLog success (''Found '' @ show_nat (length links) @ '' links on '' @ fi_url item))
                  in (case process_links e cfg item retryCount links (st\<lparr>trace := tr2\<rparr>) of
                        (st', None) \<Rightarrow> st'
                      | (st', Some err) \<Rightarrow> push_error e item (err_message err) st')))"

text \<open>One iteration of the \<^verbatim>\<open>while\<close> loop: \<^verbatim>\<open>queue.shift()\<close>, the filters, the page.\<close>

definition crawl_step :: "env \<Rightarrow> crawl_config \<Rightarrow> crawl_state \<Rightarrow> crawl_state" where
  "crawl_step e cfg st =
     (case queue st of
        [] \<Rightarrow> st
      | item # rest \<Rightarrow>
          if filtered_out e cfg (fi_url item) then st\<lparr>queue := rest\<rparr>
          else
            let tr1 = emit e (trace st)
                        (EvProgress (length (results st)) (length (results st) + length rest + 1) (fi_url item));
                tr2 = emit e tr1
                        (EvLog progress (''Fetching '' @ fi_url item @ '' (depth: '' @ show_nat (fi_depth item) @ '')''))
            in fetch_page e cfg item (st\<lparr>queue := rest, trace := tr2\<rparr>))"

text \<open>\<^verbatim>\<open>queue.length > 0 && results.length < maxUrls && !isClosed\<close>.\<close>

definition crawl_continues :: "env \<Rightarrow> crawl_config \<Rightarrow> crawl_state \<Rightarrow> bool" where
  "crawl_continues e cfg st =
     (queue st \<noteq> [] \<and> js_less (length (results st)) (c_maxUrls cfg) \<and> \<not> isClosed e (trace st))"

text \<open>
  The loop ends: every iteration takes an item off the queue, and the queue grows by at most
  one item for each result that is still below \<^verbatim>\<open>maxUrls\<close>.
\<close>

definition crawl_measure :: "crawl_config \<Rightarrow> crawl_state \<Rightarrow> nat" where
  "crawl_measure cfg st =
     length (queue st) + (case c_maxUrls cfg of None \<Rightarrow> 0 | Some k \<Rightarrow> nat (k - int (length (results st))))"

lemma process_link_measure:
  assumes "c_maxUrls cfg = Some k" "int (length (results st)) < k"
    and "process_link e cfg item rc link st = (st', thr)"
  shows "crawl_measure cfg st' \<le> crawl_measure cfg st"
  using assms
  by (auto simp: process_link_def crawl_measure_def Let_def split: if_splits option.splits)

lemma process_links_measure:
  assumes "c_maxUrls cfg = Some k"
    and "process_links e cfg item rc links st = (st', thr)"
  shows "crawl_measure cfg st' \<le> crawl_measure cfg st"
  using assms
proof (induction links arbitrary: st)
  case Nil
  then show ?case by simp
next
  case (Cons link rest)
  show ?case
  proof (cases "js_ge (length (results st)) (c_maxUrls cfg) \<or> isClosed e (trace st)")
    case True
    with Cons.prems show ?thesis by auto
  next
    case stop: False
    show ?thesis
    proof (cases "filtered_out e cfg (li_targetUrl link)")
      case True
      with stop Cons show ?thesis by auto
    next
      case False
      obtain st1 thr1 where pl: "process_link e cfg item rc link st = (st1, thr1)"
        by (cases "process_link e cfg item rc link st")
      from stop Cons.prems(1) have lt: "int (length (results st)) < k"
        by (simp add: js_ge_def)
      have m1: "crawl_measure cfg st1 \<le> crawl_measure cfg st"
        by (rule process_link_measure [OF Cons.prems(1) lt pl])
      show ?thesis
      proof (cases thr1)
        case None
        with stop False pl Cons.prems have "process_links e cfg item rc rest st1 = (st', thr)"
          by simp
        from Cons.IH [OF Cons.prems(1) this] m1 show ?thesis by simp
      next
        case (Some err)
        with stop False pl Cons.prems have "st' = st1" by simp
        with m1 show ?thesis by simp
      qed
    qed
  qed
qed

lemma push_error_measure: "crawl_measure cfg (push_error e item msg st) \<le> crawl_measure cfg st"
  by (auto simp: push_error_def crawl_measure_def Let_def split: option.splits)

lemma crawl_measure_trace [simp]: "crawl_measure cfg (st\<lparr>trace := tr\<rparr>) = crawl_measure cfg st"
  by (simp add: crawl_measure_def split: option.splits)

lemma fetch_page_measure:
  assumes "c_maxUrls cfg = Some k"
  shows "crawl_measure cfg (fetch_page e cfg item st) \<le> crawl_measure cfg st"
proof -
  have pe: "\<And>msg tr. crawl_measure cfg (push_error e item msg (st\<lparr>trace := tr\<rparr>)) \<le> crawl_measure cfg st"
    using push_error_measure [of cfg e item _ "st\<lparr>trace := _\<rparr>"] by simp
  have pl: "\<And>rc links tr st' thr. process_links e cfg item rc links (st\<lparr>trace := tr\<rparr>) = (st', thr)
      \<Longrightarrow> crawl_measure cfg st' \<le> crawl_measure cfg st"
    using process_links_measure [OF assms] by fastforce
  have pl2: "\<And>rc links tr st' thr msg. process_links e cfg item rc links (st\<lparr>trace := tr\<rparr>) = (st', thr)
      \<Longrightarrow> crawl_measure cfg (push_error e item msg st') \<le> crawl_measure cfg st"
    using pl push_error_measure le_trans by blast
  show ?thesis
    unfolding fetch_page_def Let_def
    by (auto split: sum.splits prod.splits option.splits simp: pe pl pl2)
qed

lemma crawl_step_decreases:
  assumes "crawl_continues e cfg st"
  shows "crawl_measure cfg (crawl_step e cfg st) < crawl_measure cfg st"
proof -
  from assms obtain item rest where q: "queue st = item # rest"
    by (cases "queue st") (auto simp: crawl_continues_def)
  from assms obtain k where k: "c_maxUrls cfg = Some k"
    by (auto simp: crawl_continues_def js_less_def split: option.splits)
  have drop: "\<And>tr. crawl_measure cfg (st\<lparr>queue := rest, trace := tr\<rparr>) < crawl_measure cfg st"
    using q by (simp add: crawl_measure_def split: option.splits)
  have drop2: "crawl_measure cfg (st\<lparr>queue := rest\<rparr>) < crawl_measure cfg st"
    using q by (simp add: crawl_measure_def split: option.splits)
  show ?thesis
    unfolding crawl_step_def Let_def q
    using drop drop2 fetch_page_measure [OF k, of e item "st\<lparr>queue := rest, trace := _\<rparr>"]
    by (auto intro: le_less_trans)
qed

function crawl_loop :: "env \<Rightarrow> crawl_config \<Rightarrow> crawl_state \<Rightarrow> crawl_state" where
  "crawl_loop e cfg st =
     (if crawl_continues e cfg st then crawl_loop e cfg (crawl_step e cfg st) else st)"
  by pat_completeness auto
termination
  by (relation "measure (\<lambda>(e, cfg, st). crawl_measure cfg st)") (auto simp: crawl_step_decreases)

declare crawl_loop.simps [simp del]

text \<open>The states the loop passes through, from the first to the one it ends in.\<close>

function crawl_states :: "env \<Rightarrow> crawl_config \<Rightarrow> crawl_state \<Rightarrow> crawl_state list" where
  "crawl_states e cfg st =
     st # (if crawl_continues e cfg st then crawl_states e cfg (crawl_step e cfg st) else [])"
  by pat_completeness auto
termination
  by (relation "measure (\<lambda>(e, cfg, st). crawl_measure cfg st)") (auto simp: crawl_step_decreases)

declare crawl_states.simps [simp del]

section \<open>The request and the two handlers\<close>

record raw_settings =
  s_timeout :: "int option"
  s_retries :: "int option"

text \<open>
  The body of the request as \<^verbatim>\<open>readBody\<close> returns it. A number the handlers read with a
  default is optional; \<^verbatim>\<open>maxUrls\<close> and \<^verbatim>\<open>maxDepth\<close> are integers.
\<close>

record scrape_links_request =
  urls :: "string list"
  recursive :: bool
  maxUrls :: "int option"
  maxDepth :: "int option"
  rateLimit :: "rat option"
  sameDomainOnly :: bool
  urlFilter :: "string option"
  pathInclude :: "string option"
  pathExclude :: "string option"
  settings :: "raw_settings option"

text \<open>\<^verbatim>\<open>x || d\<close> on a number and \<^verbatim>\<open>x ?? d\<close>.\<close>

definition or_default :: "'a::zero option \<Rightarrow> 'a \<Rightarrow> 'a" where
  "or_default x d = (case x of None \<Rightarrow> d | Some v \<Rightarrow> if v = 0 then d else v)"

definition nullish_default :: "'a option \<Rightarrow> 'a \<Rightarrow> 'a" where
  "nullish_default x d = (case x of None \<Rightarrow> d | Some v \<Rightarrow> v)"

definition effective_maxUrls :: "scrape_links_request \<Rightarrow> int" where
  "effective_maxUrls body = min (max (or_default (maxUrls body) 100) 1) 10000"

definition effective_rateLimit :: "scrape_links_request \<Rightarrow> rat" where
  "effective_rateLimit body = max (or_default (rateLimit body) 2) (1 / 10)"

definition stream_settings :: "scrape_links_request \<Rightarrow> request_settings" where
  "stream_settings body =
     \<lparr>rs_timeout = min (max (nullish_default (case settings body of None \<Rightarrow> None | Some s \<Rightarrow> s_timeout s) 30) 1) 120,
      rs_retries = min (max (nullish_default (case settings body of None \<Rightarrow> None | Some s \<Rightarrow> s_retries s) 1) 0) 5\<rparr>"

definition stream_urlFilterRegex :: "env \<Rightarrow> scrape_links_request \<Rightarrow> (string \<Rightarrow> bool) option" where
  "stream_urlFilterRegex e body =
     (case urlFilter body of
        None \<Rightarrow> None
      | Some f \<Rightarrow> if f \<noteq> [] \<and> length f \<le> 200 then compileRegExp e f else None)"

text \<open>\<^verbatim>\<open>p ? p.split(',').map(x => x.trim()).filter(Boolean) : []\<close>.\<close>

definition path_list :: "string option \<Rightarrow> string list" where
  "path_list p =
     (case p of
        None \<Rightarrow> []
      | Some s \<Rightarrow> if s = [] then [] else filter (\<lambda>x. x \<noteq> []) (map trim (split_char CHR '','' s)))"

text \<open>The seed loop of the streaming handler, with its \<^verbatim>\<open>isAllowedUrl\<close> check.\<close>

fun seed_stream ::
  "env \<Rightarrow> string list \<Rightarrow> frontier_item list \<times> string list \<Rightarrow> frontier_item list \<times> string list" where
  "seed_stream e [] qv = qv"
| "seed_stream e (u # us) (q, v) =
     (case normalizeUrl e u None of
        None \<Rightarrow> seed_stream e us (q, v)
      | Some normalized \<Rightarrow>
          if normalized \<noteq> [] \<and> normalized \<notin> set v \<and> isAllowedUrl e normalized then
            seed_stream e us (q @ [\<lparr>fi_url = normalized, fi_depth = 0, fi_sourceUrl = None\<rparr>], v @ [normalized])
          else seed_stream e us (q, v))"

text \<open>The seed loop of the older handler, which has no such check.\<close>

fun seed_legacy ::
  "env \<Rightarrow> string list \<Rightarrow> frontier_item list \<times> string list \<Rightarrow> frontier_item list \<times> string list" where
  "seed_legacy e [] qv = qv"
| "seed_legacy e (u # us) (q, v) =
     (case normalizeUrl e u None of
        None \<Rightarrow> seed_legacy e us (q, v)
      | Some normalized \<Rightarrow>
          if normalized \<noteq> [] \<and> normalized \<notin> set v then
            seed_legacy e us (q @ [\<lparr>fi_url = normalized, fi_depth = 0, fi_sourceUrl = None\<rparr>], v @ [normalized])
          else seed_legacy e us (q, v))"

definition baseDomains :: "env \<Rightarrow> string list \<Rightarrow> string list" where
  "baseDomains e us =
     List.map_filter
       (\<lambda>u. case parseURL e u None of
              None \<Rightarrow> None
            | Some parsed \<Rightarrow> if hostname parsed = [] then None else Some (hostname parsed))
       us"

definition stream_config :: "env \<Rightarrow> scrape_links_request \<Rightarrow> crawl_config" where
  "stream_config e body =
     \<lparr>c_maxUrls = Some (effective_maxUrls body),
      c_delayMs = delay_div 1000 (Some (effective_rateLimit body)),
      c_urlFilterRegex = stream_urlFilterRegex e body,
      c_pathIncludes = path_list (pathInclude body),
      c_pathExcludes = path_list (pathExclude body),
      c_recursive = recursive body,
      c_maxDepth = maxDepth body,
      c_sameDomainOnly = sameDomainOnly body,
      c_baseDomains = baseDomains e (urls body),
      c_settings = stream_settings body\<rparr>"

text \<open>
  The older handler reads \<^verbatim>\<open>body.maxUrls\<close> and \<^verbatim>\<open>body.rateLimit\<close> as they come, compiles a
  filter of any length and has no path filter, which is the path filter with no entries.
\<close>

definition legacy_config :: "env \<Rightarrow> scrape_links_request \<Rightarrow> crawl_config" where
  "legacy_config e body =
     \<lparr>c_maxUrls = maxUrls body,
      c_delayMs = delay_div 1000 (rateLimit body),
      c_urlFilterRegex = (case urlFilter body of
                            None \<Rightarrow> None
                          | Some f \<Rightarrow> if f \<noteq> [] then compileRegExp e f else None),
      c_pathIncludes = [],
      c_pathExcludes = [],
      c_recursive = recursive body,
      c_maxDepth = maxDepth body,
      c_sameDomainOnly = sameDomainOnly body,
      c_baseDomains = baseDomains e (urls body),
      c_settings = \<lparr>rs_timeout = nullish_default (case settings body of None \<Rightarrow> None | Some s \<Rightarrow> s_timeout s) 30,
                     rs_retries = nullish_default (case settings body of None \<Rightarrow> None | Some s \<Rightarrow> s_retries s) 1\<rparr>\<rparr>"

text \<open>
  What both handlers do with the seeded queue: announce the crawl, run the loop, send
  \<^verbatim>\<open>done\<close> and the closing log line. The state returned holds the \<^verbatim>\<open>results\<close> array and
  everything written to the stream. Whatever a page throws is caught by the page's own
  \<^verbatim>\<open>try\<close>, so the outer \<^verbatim>\<open>catch\<close> with its \<^verbatim>\<open>error\<close> event is never entered.
\<close>

definition crawl_start :: "env \<Rightarrow> frontier_item list \<times> string list \<Rightarrow> crawl_state" where
  "crawl_start e qv =
     \<lparr>results = [], visited = snd qv, queue = fst qv,
      trace = emit e [] (EvLog info (''Starting crawl with '' @ show_nat (length (fst qv)) @ '' seed URL(s)''))\<rparr>"

definition run_crawl :: "env \<Rightarrow> crawl_config \<Rightarrow> frontier_item list \<times> string list \<Rightarrow> crawl_state" where
  "run_crawl e cfg qv =
     (let st = crawl_loop e cfg (crawl_start e qv);
          tr1 = emit e (trace st) (EvDone (length (results st)) (length (visited st)));
          tr2 = emit e tr1 (EvLog success (''Crawl complete: '' @ show_nat (length (results st)) @ '' links found''))
      in st\<lparr>trace := tr2\<rparr>)"

definition scrape_links_stream :: "env \<Rightarrow> scrape_links_request \<Rightarrow> crawl_state" where
  "scrape_links_stream e body = run_crawl e (stream_config e body) (seed_stream e (urls body) ([], []))"

definition scrape_links_legacy :: "env \<Rightarrow> scrape_links_request \<Rightarrow> crawl_state" where
  "scrape_links_legacy e body = run_crawl e (legacy_config e body) (seed_legacy e (urls body) ([], []))"

section \<open>A concrete environment\<close>

text \<open>
  A parser for URLs of the shape \<^verbatim>\<open>scheme://host[:port][/path][?query][#fragment]\<close> with a
  lower-case \<^verbatim>\<open>http\<close>, \<^verbatim>\<open>https\<close> or \<^verbatim>\<open>ftp\<close> scheme, and for an absolute path
  against such a base. On these it agrees with the platform's \<^verbatim>\<open>URL\<close> as long as the
  input has no user name, no dot segment, no character that needs escaping and no default
  port; every other input is refused. It serves the examples below.
\<close>

definition parse_authority :: "string \<Rightarrow> string \<Rightarrow> url option" where
  "parse_authority proto rest =
     (let auth = takeWhile (\<lambda>c. c \<notin> set ''/?#'') rest;
          r1 = dropWhile (\<lambda>c. c \<notin> set ''/?#'') rest;
          path = takeWhile (\<lambda>c. c \<notin> set ''?#'') r1;
          r2 = dropWhile (\<lambda>c. c \<notin> set ''?#'') r1
      in if takeWhile (\<lambda>c. c \<noteq> CHR '':'') auth = [] then None
         else Some \<lparr>protocol = proto,
                    hostname = toLowerCase (takeWhile (\<lambda>c. c \<noteq> CHR '':'') auth),
                    port = drop 1 (dropWhile (\<lambda>c. c \<noteq> CHR '':'') auth),
                    pathname = (if path = [] then ''/'' else path),
                    search = takeWhile (\<lambda>c. c \<noteq> CHR ''#'') r2,
                    hash = dropWhile (\<lambda>c. c \<noteq> CHR ''#'') r2\<rparr>)"

definition parse_absolute :: "string \<Rightarrow> url option" where
  "parse_absolute s =
     (if prefix ''https://'' s then parse_authority ''https:'' (drop 8 s)
      else if prefix ''http://'' s then parse_authority ''http:'' (drop 7 s)
      else if prefix ''ftp://'' s then parse_authority ''ftp:'' (drop 6 s)
      else None)"

definition example_parseURL :: "string \<Rightarrow> string option \<Rightarrow> url option" where
  "example_parseURL s base =
     (case parse_absolute s of
        Some u \<Rightarrow> Some u
      | None \<Rightarrow>
          (case base of
             None \<Rightarrow> None
           | Some b \<Rightarrow>
               (case parse_absolute b of
                  None \<Rightarrow> None
                | Some bu \<Rightarrow>
                    if prefix ''/'' s \<and> \<not> prefix ''//'' s
                    then parse_absolute (href (bu\<lparr>pathname := [], search := [], hash := []\<rparr>) @ s)
                    else None)))"

text \<open>
  A pattern of lower-case letters and digits is a regular expression that matches the
  strings containing it; the example environment compiles no other pattern.
\<close>

definition example_compileRegExp :: "string \<Rightarrow> (string \<Rightarrow> bool) option" where
  "example_compileRegExp pat =
     (if list_all (\<lambda>c. c \<in> set ''abcdefghijklmnopqrstuvwxyz0123456789'') pat
      then Some (\<lambda>s. includes_str s pat) else None)"

text \<open>
  A web that answers a request by its URL alone: \<open>pages\<close> for \<^verbatim>\<open>GET\<close>, \<open>heads\<close> for
  \<^verbatim>\<open>HEAD\<close>, a request for anything else failing as \<^verbatim>\<open>fetch\<close> does. \<open>docs\<close> gives the
  anchors of each HTML body and \<open>sitemaps\<close> the \<^verbatim>\<open>loc\<close> texts of each XML body. The
  client never closes the connection.
\<close>

definition example_env ::
  "(string \<times> (js_error + response)) list \<Rightarrow> (string \<times> (js_error + head_response)) list
     \<Rightarrow> (string \<times> anchor list) list \<Rightarrow> (string \<times> string list) list \<Rightarrow> env" where
  "example_env pages heads docs sitemaps =
     \<lparr>parseURL = example_parseURL,
      compileRegExp = example_compileRegExp,
      cheerio_anchors = (\<lambda>html. case map_of docs html of None \<Rightarrow> [] | Some as \<Rightarrow> as),
      cheerio_locs = (\<lambda>xml. case map_of sitemaps xml of None \<Rightarrow> [] | Some ls \<Rightarrow> ls),
      http_get = (\<lambda>tr u. case map_of pages u of
                            None \<Rightarrow> Inl (JsError ''TypeError'' ''fetch failed'')
                          | Some out \<Rightarrow> out),
      http_head = (\<lambda>tr u. case map_of heads u of
                             None \<Rightarrow> Inl (JsError ''TypeError'' ''fetch failed'')
                           | Some out \<Rightarrow> out),
      isClosed = (\<lambda>tr. False)\<rparr>"

definition ok_page :: "string \<Rightarrow> js_error + response" where
  "ok_page html = Inr \<lparr>status = 200, text_body = Inr html\<rparr>"

definition head_ok :: "js_error + head_response" where
  "head_ok = Inr \<lparr>head_status = 200, location = None\<rparr>"

section \<open>Notions and examples for the properties\<close>

subsection \<open>The redirect walker\<close>

text \<open>
  \<open>redirects_ahead e tr u n\<close>: walking from \<open>u\<close> after the history \<open>tr\<close>, the next \<open>n\<close>
  requests are each answered by a redirect, a status in [300, 400) with a non-empty
  \<^verbatim>\<open>Location\<close> that resolves against the URL it came from.
\<close>

fun redirects_ahead :: "env \<Rightarrow> event list \<Rightarrow> string \<Rightarrow> nat \<Rightarrow> bool" where
  "redirects_ahead e tr u 0 = True"
| "redirects_ahead e tr u (Suc n) =
     (case http_head e tr u of
        Inl err \<Rightarrow> False
      | Inr resp \<Rightarrow>
          300 \<le> head_status resp \<and> head_status resp < 400 \<and>
          (case location resp of
             None \<Rightarrow> False
           | Some loc \<Rightarrow>
               loc \<noteq> [] \<and>
               (case parseURL e loc (Some u) of
                  None \<Rightarrow> False
                | Some target \<Rightarrow> redirects_ahead e (tr @ [EvHead u (Inr resp)]) (href target) n)))"

text \<open>Eleven redirects in a row, \<^verbatim>\<open>/r0\<close> to \<^verbatim>\<open>/r11\<close>, the last page answering 200.\<close>

definition redirect_to :: "string \<Rightarrow> js_error + head_response" where
  "redirect_to loc = Inr \<lparr>head_status = 302, location = Some loc\<rparr>"

definition eleven_hops :: "(string \<times> (js_error + head_response)) list" where
  "eleven_hops =
     [(''https://example.com/r0'', redirect_to ''/r1''),
      (''https://example.com/r1'', redirect_to ''/r2''),
      (''https://example.com/r2'', redirect_to ''/r3''),
      (''https://example.com/r3'', redirect_to ''/r4''),
      (''https://example.com/r4'', redirect_to ''/r5''),
      (''https://example.com/r5'', redirect_to ''/r6''),
      (''https://example.com/r6'', redirect_to ''/r7''),
      (''https://example.com/r7'', redirect_to ''/r8''),
      (''https://example.com/r8'', redirect_to ''/r9''),
      (''https://example.com/r9'', redirect_to ''/r10''),
      (''https://example.com/r10'', redirect_to ''/r11''),
      (''https://example.com/r11'', head_ok)]"

text \<open>
  The steps of the first \<open>n\<close> hops of the walk from \<open>u\<close> after the history \<open>tr\<close>, read off
  the network: the URL each request goes to and the status it is answered with, the next
  request going to what the \<^verbatim>\<open>Location\<close> resolves to.
\<close>

fun hops :: "env \<Rightarrow> event list \<Rightarrow> string \<Rightarrow> nat \<Rightarrow> redirect_step list" where
  "hops e tr u 0 = []"
| "hops e tr u (Suc n) =
     (case http_head e tr u of
        Inl err \<Rightarrow> []
      | Inr resp \<Rightarrow>
          \<lparr>step_url = u, step_status = head_status resp\<rparr> #
          (case location resp of
             None \<Rightarrow> []
           | Some loc \<Rightarrow>
               (case parseURL e loc (Some u) of
                  None \<Rightarrow> []
                | Some target \<Rightarrow> hops e (tr @ [EvHead u (Inr resp)]) (href target) n)))"

text \<open>The steps a trace records: one for every \<^verbatim>\<open>HEAD\<close> request that was answered.\<close>

fun head_steps :: "event list \<Rightarrow> redirect_step list" where
  "head_steps [] = []"
| "head_steps (EvHead u (Inr resp) # es) = \<lparr>step_url = u, step_status = head_status resp\<rparr> # head_steps es"
| "head_steps (ev # es) = head_steps es"

subsection \<open>The retry policy\<close>

text \<open>The attempts a trace records: their numbers and what the network answered.\<close>

fun get_attempts :: "event list \<Rightarrow> (nat \<times> (js_error + response)) list" where
  "get_attempts [] = []"
| "get_attempts (EvGet u attempt out # es) = (attempt, out) # get_attempts es"
| "get_attempts (ev # es) = get_attempts es"






subsection \<open>Sitemap detection\<close>

text \<open>
  The targets of a sitemap: what the non-empty trimmed \<^verbatim>\<open>loc\<close> texts normalise to.
\<close>

definition sitemap_targets :: "env \<Rightarrow> string \<Rightarrow> string set" where
  "sitemap_targets e xml =
     {n. n \<noteq> [] \<and> (\<exists>t \<in> set (cheerio_locs e xml). trim t \<noteq> [] \<and> normalizeUrl e (trim t) None = Some n)}"

text \<open>
  An XHTML page with one anchor, and a sitemap with two entries. The page starts with an XML
  declaration and names neither \<^verbatim>\<open>urlset\<close> nor \<^verbatim>\<open>sitemapindex\<close>.
\<close>

definition dq :: string where "dq = [CHR 0x22]"

definition xml_declaration :: string where
  "xml_declaration = ''<?xml version='' @ dq @ ''1.0'' @ dq @ ''?>''"

definition example_sitemap :: string where
  "example_sitemap = xml_declaration @
     ''<urlset><url><loc>https://example.com/a/</loc></url><url><loc> https://example.com/b#top </loc></url></urlset>''"

definition example_xhtml :: string where
  "example_xhtml = xml_declaration @ ''<html><body><a href=/b>b</a></body></html>''"

definition sitemap_env :: env where
  "sitemap_env = example_env [] []
     [(example_xhtml, [\<lparr>a_href = ''/b'', a_text = ''b'', a_rel = None\<rparr>])]
     [(example_sitemap, [''https://example.com/a/'', '' https://example.com/b#top ''])]"

subsection \<open>What the loops need of the platform\<close>

text \<open>
  The URL constructor accepts what \<^verbatim>\<open>normalizeUrl\<close> returns. With this,
  \<^verbatim>\<open>new URL(link.targetUrl)\<close> in the loop never throws, the targets being normalised.
\<close>

definition env_ok :: "env \<Rightarrow> bool" where
  "env_ok e = (\<forall>u b n. normalizeUrl e u b = Some n \<longrightarrow> parseURL e n None \<noteq> None)"

subsection \<open>The traces of the network calls\<close>

text \<open>The events of the redirect walker and of the retrying fetcher: requests and timers.\<close>

definition is_network :: "event \<Rightarrow> bool" where
  "is_network ev = (case ev of EvSleep d \<Rightarrow> True | EvGet u a out \<Rightarrow> True | EvHead u out \<Rightarrow> True | _ \<Rightarrow> False)"

subsection \<open>Invariants of the crawl loop\<close>

text \<open>
  The events that tell the client nothing about results: requests, timers, progress and the
  log lines other than the error line of a failed page.
\<close>

definition is_narration :: "event \<Rightarrow> bool" where
  "is_narration ev =
     (case ev of EvResult r \<Rightarrow> False | EvDone a b \<Rightarrow> False | EvLog t m \<Rightarrow> t \<noteq> error | _ \<Rightarrow> True)"

subsection \<open>Depth and URL budgets\<close>

text \<open>The largest length that is at most a bound, zero when the bound is undefined.\<close>

definition js_cap :: "int option \<Rightarrow> nat" where
  "js_cap m = (case m of None \<Rightarrow> 0 | Some k \<Rightarrow> nat k)"

text \<open>No result and no queued item lies deeper than \<^verbatim>\<open>maxDepth\<close>, or than 0 when it is negative.\<close>

definition depth_inv :: "crawl_config \<Rightarrow> crawl_state \<Rightarrow> bool" where
  "depth_inv cfg st =
     ((\<forall>r \<in> set (results st). lr_depth r \<le> js_cap (c_maxDepth cfg))
      \<and> (\<forall>i \<in> set (queue st). fi_depth i \<le> js_cap (c_maxDepth cfg)))"

text \<open>The results a trace streamed, in order.\<close>

fun emitted_results :: "event list \<Rightarrow> link_result list" where
  "emitted_results [] = []"
| "emitted_results (EvResult r # es) = r # emitted_results es"
| "emitted_results (ev # es) = emitted_results es"

text \<open>What was streamed is part of the \<^verbatim>\<open>results\<close> array, in its order.\<close>

definition emitted_inv :: "crawl_state \<Rightarrow> bool" where
  "emitted_inv st = subseq (emitted_results (trace st)) (results st)"

text \<open>
  A site of two pages: \<^verbatim>\<open>/a\<close> links to \<^verbatim>\<open>/b\<close> and to another host, \<^verbatim>\<open>/b\<close> links to
  another host. The request crawls it recursively, two levels deep, on the seed's host only.
\<close>

definition crawl_request :: "string list \<Rightarrow> scrape_links_request" where
  "crawl_request us =
     \<lparr>urls = us, recursive = True, maxUrls = Some 100, maxDepth = Some 2, rateLimit = Some 2,
      sameDomainOnly = True, urlFilter = None, pathInclude = None, pathExclude = None,
      settings = None\<rparr>"

definition page_a :: string where
  "page_a = ''<a href=/b>b</a><a href=https://other.com/c rel=nofollow>c</a>''"

definition page_b :: string where
  "page_b = ''<a href=https://other.com/d>d</a>''"

definition small_site :: env where
  "small_site = example_env
     [(''https://example.com/a'', ok_page page_a), (''https://example.com/b'', ok_page page_b)]
     [(''https://example.com/b'', head_ok), (''https://other.com/c'', head_ok),
      (''https://other.com/d'', head_ok)]
     [(page_a, [\<lparr>a_href = ''/b'', a_text = ''b'', a_rel = None\<rparr>,
                \<lparr>a_href = ''https://other.com/c'', a_text = ''c'', a_rel = Some ''nofollow''\<rparr>]),
      (page_b, [\<lparr>a_href = ''https://other.com/d'', a_text = ''d'', a_rel = None\<rparr>])]
     []"

subsection \<open>Failed pages and their results\<close>


text \<open>The log line of a failed page, and the result that stands for a failed page.\<close>

fun is_error_log :: "event \<Rightarrow> bool" where
  "is_error_log (EvLog t m) = (t = error)"
| "is_error_log ev = False"





text \<open>The \<^verbatim>\<open>GET\<close> requests a trace records: the URL, the attempt number and the answer.\<close>

fun get_requests :: "event list \<Rightarrow> (string \<times> nat \<times> (js_error + response)) list" where
  "get_requests [] = []"
| "get_requests (EvGet u attempt out # es) = (u, attempt, out) # get_requests es"
| "get_requests (ev # es) = get_requests es"



text \<open>
  Why a page fetch failed, if it did: its last attempt raised, or the body of the response
  could not be read. A response with a body is a fetched page, whatever its status.
\<close>

definition fetch_failure :: "js_error + response \<Rightarrow> string option" where
  "fetch_failure out =
     (case out of
        Inl err \<Rightarrow> Some (err_message err)
      | Inr resp \<Rightarrow> (case text_body resp of Inl err \<Rightarrow> Some (err_message err) | Inr html \<Rightarrow> None))"

fun failures :: "(string \<times> (js_error + response)) list \<Rightarrow> (string \<times> string) list" where
  "failures [] = []"
| "failures ((u, out) # fs) =
     (case fetch_failure out of None \<Rightarrow> failures fs | Some m \<Rightarrow> (u, m) # failures fs)"




subsection \<open>The outbound gate\<close>

text \<open>
  Every depth-0 item and the source of every depth-0 result passes the gate, and a crawl
  that is not recursive stays at depth 0. No queued item has a \<^verbatim>\<open>sourceUrl\<close>.
\<close>

definition gate_inv :: "env \<Rightarrow> crawl_config \<Rightarrow> crawl_state \<Rightarrow> bool" where
  "gate_inv e cfg st =
     ((\<forall>r \<in> set (results st). (lr_depth r = 0 \<longrightarrow> isAllowedUrl e (lr_sourceUrl r))
                                \<and> (\<not> c_recursive cfg \<longrightarrow> lr_depth r = 0))
      \<and> (\<forall>i \<in> set (queue st). fi_sourceUrl i = None
                                \<and> (fi_depth i = 0 \<longrightarrow> isAllowedUrl e (fi_url i))
                                \<and> (\<not> c_recursive cfg \<longrightarrow> fi_depth i = 0)))"

definition gate_item :: "env \<Rightarrow> crawl_config \<Rightarrow> frontier_item \<Rightarrow> bool" where
  "gate_item e cfg item =
     (fi_sourceUrl item = None \<and> (fi_depth item = 0 \<longrightarrow> isAllowedUrl e (fi_url item))
      \<and> (\<not> c_recursive cfg \<longrightarrow> fi_depth item = 0))"

text \<open>A site whose page links to the loopback address.\<close>

definition page_l :: string where
  "page_l = ''<a href=http://127.0.0.1/>admin</a>''"

definition loopback_link_site :: env where
  "loopback_link_site = example_env
     [(''https://example.com/a'', ok_page page_l)] []
     [(page_l, [\<lparr>a_href = ''http://127.0.0.1/'', a_text = ''admin'', a_rel = None\<rparr>])] []"

subsection \<open>The rate limit\<close>

text \<open>A site of two pages without links.\<close>

definition two_empty_pages :: env where
  "two_empty_pages = example_env
     [(''https://example.com/a'', ok_page []), (''https://example.com/b'', ok_page [])] [] [] []"

subsection \<open>The length guard of the URL filter\<close>

definition filter_inv :: "(string \<Rightarrow> bool) \<Rightarrow> crawl_state \<Rightarrow> bool" where
  "filter_inv test st =
     ((\<forall>r \<in> set (results st). test (lr_sourceUrl r) \<and> test (lr_targetUrl r))
      \<and> (\<forall>i \<in> set (queue st). fi_sourceUrl i = None))"

section \<open>Request limits of the streaming handler\<close>

text \<open>
  Claim C10. In the streaming handler the \<^verbatim>\<open>maxUrls\<close> the loop uses lies in [1, 10000]
  whatever the request holds, a missing or zero value becoming 100; the rate limit is at
  least 0.1 requests per second, a missing or zero value becoming 2; so the delay before a
  fetch is a positive number of at most 10000 milliseconds.
\<close>

theorem effective_limits_in_range:
  "1 \<le> effective_maxUrls body \<and> effective_maxUrls body \<le> 10000
   \<and> effective_maxUrls (body\<lparr>maxUrls := None\<rparr>) = 100
   \<and> effective_maxUrls (body\<lparr>maxUrls := Some 0\<rparr>) = 100
   \<and> 1 / 10 \<le> effective_rateLimit body
   \<and> effective_rateLimit (body\<lparr>rateLimit := None\<rparr>) = 2
   \<and> effective_rateLimit (body\<lparr>rateLimit := Some 0\<rparr>) = 2
   \<and> c_maxUrls (stream_config e body) = Some (effective_maxUrls body)
   \<and> (\<exists>d. c_delayMs (stream_config e body) = Ms d \<and> d = 1000 / effective_rateLimit body
            \<and> 0 < d \<and> d \<le> 10000)"
proof -
  have r: "1 / 10 \<le> effective_rateLimit body"
    by (simp add: effective_rateLimit_def)
  then have pos: "0 < effective_rateLimit body" by linarith
  have "1000 / effective_rateLimit body \<le> 10000"
    using r pos by (simp add: field_simps)
  moreover have "0 < 1000 / effective_rateLimit body" using pos by simp
  ultimately show ?thesis
    using r pos
    by (simp add: effective_maxUrls_def or_default_def stream_config_def delay_div_def
        effective_rateLimit_def)
qed

section \<open>URL normalisation\<close>

text \<open>
  Claim C9 asks that normalising twice gives what normalising once gives. One trailing slash
  is cut, so a path that ends with two slashes keeps one after the first pass and loses it
  in the second: \<^verbatim>\<open>http://a.com/x//\<close> becomes \<^verbatim>\<open>http://a.com/x/\<close>, which becomes
  \<^verbatim>\<open>http://a.com/x\<close>.
\<close>

theorem normalizeUrl_twice_differs:
  "normalizeUrl (example_env [] [] [] []) ''http://a.com/x//'' None = Some ''http://a.com/x/''
   \<and> normalizeUrl (example_env [] [] [] []) ''http://a.com/x/'' None = Some ''http://a.com/x''"
  by (simp add: normalizeUrl_def example_env_def example_parseURL_def parse_absolute_def
      parse_authority_def toLowerCase_def toLowerChar_def href_def suffix_def)

section \<open>The redirect walker\<close>

lemma redirects_ahead_Suc: "redirects_ahead e tr u (Suc n) \<Longrightarrow> redirects_ahead e tr u n"
proof (induction n arbitrary: tr u)
  case 0
  then show ?case by simp
next
  case (Suc n)
  from Suc.prems obtain resp loc target where
    h: "http_head e tr u = Inr resp" "300 \<le> head_status resp" "head_status resp < 400"
       "location resp = Some loc" "loc \<noteq> []" "parseURL e loc (Some u) = Some target"
       "redirects_ahead e (tr @ [EvHead u (Inr resp)]) (href target) (Suc n)"
    by (subst (asm) redirects_ahead.simps) (auto split: sum.splits option.splits)
  from Suc.IH [OF h(7)] h(1-6) show ?case
    by (subst redirects_ahead.simps) simp
qed

lemma redirects_ahead_add: "redirects_ahead e tr u (n + k) \<Longrightarrow> redirects_ahead e tr u n"
proof (induction k)
  case 0
  then show ?case by simp
next
  case (Suc k)
  from Suc.prems have "redirects_ahead e tr u (Suc (n + k))" by (simp del: redirects_ahead.simps)
  then show ?case using Suc.IH redirects_ahead_Suc by blast
qed

lemma redirects_ahead_le: "n \<le> m \<Longrightarrow> redirects_ahead e tr u m \<Longrightarrow> redirects_ahead e tr u n"
  using redirects_ahead_add [of e tr u n "m - n"] by simp

lemma getRedirectChain_loop_capped:
  assumes "redirects_ahead e tr u (m - c)" "c \<le> m"
  shows "ri_finalStatus (fst (getRedirectChain_loop e m chain u c tr)) = 0
         \<and> ri_error (fst (getRedirectChain_loop e m chain u c tr)) = Some ''Too many redirects''
         \<and> length (ri_chain (fst (getRedirectChain_loop e m chain u c tr))) = length chain + (m - c)
         \<and> take (length chain) (ri_chain (fst (getRedirectChain_loop e m chain u c tr))) = chain"
  using assms
proof (induction "m - c" arbitrary: c chain u tr)
  case 0
  then show ?case by (simp add: getRedirectChain_loop.simps)
next
  case (Suc k)
  from Suc.hyps(2) have lt: "c < m" and k: "k = m - (c + 1)" and sk: "m - c = Suc k" by auto
  from Suc.prems(1) sk obtain resp loc target where
    h: "http_head e tr u = Inr resp" "300 \<le> head_status resp" "head_status resp < 400"
       "location resp = Some loc" "loc \<noteq> []" "parseURL e loc (Some u) = Some target"
       "redirects_ahead e (tr @ [EvHead u (Inr resp)]) (href target) k"
    by (auto split: sum.splits option.splits)
  have step: "getRedirectChain_loop e m chain u c tr =
      getRedirectChain_loop e m (chain @ [\<lparr>step_url = u, step_status = head_status resp\<rparr>])
        (href target) (c + 1) (tr @ [EvHead u (Inr resp)])"
    using lt h by (subst getRedirectChain_loop.simps) simp
  have "redirects_ahead e (tr @ [EvHead u (Inr resp)]) (href target) (m - (c + 1))"
    using h(7) k by simp
  from Suc.hyps(1) [OF k this, of "chain @ [\<lparr>step_url = u, step_status = head_status resp\<rparr>]"] lt
  show ?case unfolding step by (auto simp: take_Suc_conv_app_nth)
qed

lemma hops_redirects:
  "redirects_ahead e tr u n \<Longrightarrow>
     length (hops e tr u n) = n
     \<and> (\<forall>s \<in> set (hops e tr u n). 300 \<le> step_status s \<and> step_status s < 400)
     \<and> (0 < n \<longrightarrow> step_url (hd (hops e tr u n)) = u)"
proof (induction n arbitrary: tr u)
  case 0
  then show ?case by simp
next
  case (Suc n)
  from Suc.prems obtain resp loc target where
    h: "http_head e tr u = Inr resp" "300 \<le> head_status resp" "head_status resp < 400"
       "location resp = Some loc" "loc \<noteq> []" "parseURL e loc (Some u) = Some target"
       "redirects_ahead e (tr @ [EvHead u (Inr resp)]) (href target) n"
    by (subst (asm) redirects_ahead.simps) (auto split: sum.splits option.splits)
  have eq: "hops e tr u (Suc n) =
      \<lparr>step_url = u, step_status = head_status resp\<rparr> # hops e (tr @ [EvHead u (Inr resp)]) (href target) n"
    using h by simp
  from Suc.IH [OF h(7)] h(2,3) show ?case unfolding eq by simp
qed

lemma getRedirectChain_loop_hops:
  assumes "redirects_ahead e tr u (m - c)" "c \<le> m"
  shows "ri_chain (fst (getRedirectChain_loop e m chain u c tr)) = chain @ hops e tr u (m - c)
         \<and> (\<exists>es. snd (getRedirectChain_loop e m chain u c tr) = tr @ es \<and> length es = m - c
                \<and> head_steps es = hops e tr u (m - c))"
  using assms
proof (induction "m - c" arbitrary: c chain u tr)
  case 0
  then show ?case by (simp add: getRedirectChain_loop.simps)
next
  case (Suc k)
  from Suc.hyps(2) have lt: "c < m" and k: "k = m - (c + 1)" and sk: "m - c = Suc k" by auto
  from Suc.prems(1) sk obtain resp loc target where
    h: "http_head e tr u = Inr resp" "300 \<le> head_status resp" "head_status resp < 400"
       "location resp = Some loc" "loc \<noteq> []" "parseURL e loc (Some u) = Some target"
       "redirects_ahead e (tr @ [EvHead u (Inr resp)]) (href target) k"
    by (auto split: sum.splits option.splits)
  have step: "getRedirectChain_loop e m chain u c tr =
      getRedirectChain_loop e m (chain @ [\<lparr>step_url = u, step_status = head_status resp\<rparr>])
        (href target) (c + 1) (tr @ [EvHead u (Inr resp)])"
    using lt h by (subst getRedirectChain_loop.simps) simp
  have hop: "hops e tr u (m - c) =
      \<lparr>step_url = u, step_status = head_status resp\<rparr> # hops e (tr @ [EvHead u (Inr resp)]) (href target) (m - (c + 1))"
    using h sk k by simp
  have ra: "redirects_ahead e (tr @ [EvHead u (Inr resp)]) (href target) (m - (c + 1))"
    using h(7) k by simp
  from Suc.hyps(1) [OF k ra, of "chain @ [\<lparr>step_url = u, step_status = head_status resp\<rparr>]"] lt
  obtain es where
    c: "ri_chain (fst (getRedirectChain_loop e m (chain @ [\<lparr>step_url = u, step_status = head_status resp\<rparr>])
          (href target) (c + 1) (tr @ [EvHead u (Inr resp)])))
        = (chain @ [\<lparr>step_url = u, step_status = head_status resp\<rparr>])
            @ hops e (tr @ [EvHead u (Inr resp)]) (href target) (m - (c + 1))"
    and es: "snd (getRedirectChain_loop e m (chain @ [\<lparr>step_url = u, step_status = head_status resp\<rparr>])
          (href target) (c + 1) (tr @ [EvHead u (Inr resp)])) = (tr @ [EvHead u (Inr resp)]) @ es"
      "length es = m - (c + 1)"
      "head_steps es = hops e (tr @ [EvHead u (Inr resp)]) (href target) (m - (c + 1))"
    by auto
  have "snd (getRedirectChain_loop e m chain u c tr) = tr @ (EvHead u (Inr resp) # es)
        \<and> length (EvHead u (Inr resp) # es) = m - c
        \<and> head_steps (EvHead u (Inr resp) # es) = hops e tr u (m - c)"
    unfolding step hop using es lt by simp
  then have "\<exists>es. snd (getRedirectChain_loop e m chain u c tr) = tr @ es \<and> length es = m - c
                \<and> head_steps es = hops e tr u (m - c)"
    by blast
  moreover have "ri_chain (fst (getRedirectChain_loop e m chain u c tr)) = chain @ hops e tr u (m - c)"
    unfolding step hop using c by simp
  ultimately show ?case by blast
qed

text \<open>
  Claim C5. When the walk from a URL meets eleven redirects in a row (ten are enough, and
  so is any longer run), \<^verbatim>\<open>getRedirectChain\<close> sends ten \<^verbatim>\<open>HEAD\<close> requests and no more,
  returns \<^verbatim>\<open>finalStatus\<close> 0 and the error \<^verbatim>\<open>Too many redirects\<close>, and keeps the chain of
  the hops it made: exactly ten steps, one for each request in the order they were sent,
  each with the URL the request went to and the redirect status it was answered with, the
  first step being the URL the walk started from.
\<close>

theorem getRedirectChain_too_many_redirects:
  assumes "10 \<le> n" and "redirects_ahead e tr u n"
  shows "ri_finalStatus (fst (getRedirectChain e tr u)) = 0
         \<and> ri_error (fst (getRedirectChain e tr u)) = Some ''Too many redirects''
         \<and> length (ri_chain (fst (getRedirectChain e tr u))) = 10
         \<and> ri_chain (fst (getRedirectChain e tr u)) = hops e tr u 10
         \<and> (\<exists>es. snd (getRedirectChain e tr u) = tr @ es \<and> length es = 10
                \<and> head_steps es = ri_chain (fst (getRedirectChain e tr u)))
         \<and> (\<forall>s \<in> set (ri_chain (fst (getRedirectChain e tr u))). 300 \<le> step_status s \<and> step_status s < 400)
         \<and> step_url (hd (ri_chain (fst (getRedirectChain e tr u)))) = u"
proof -
  have ra: "redirects_ahead e tr u (10 - 0)"
    using redirects_ahead_le [OF assms(1) assms(2)] by simp
  then have ra': "redirects_ahead e tr u 10" by simp
  from getRedirectChain_loop_capped [OF ra, of "[]"]
  have a: "ri_finalStatus (fst (getRedirectChain e tr u)) = 0"
    "ri_error (fst (getRedirectChain e tr u)) = Some ''Too many redirects''"
    by (simp_all add: getRedirectChain_def)
  from getRedirectChain_loop_hops [OF ra, of "[]"]
  have b: "ri_chain (fst (getRedirectChain e tr u)) = hops e tr u 10"
    and c: "\<exists>es. snd (getRedirectChain e tr u) = tr @ es \<and> length es = 10
                \<and> head_steps es = hops e tr u 10"
    by (simp_all add: getRedirectChain_def)
  from hops_redirects [OF ra']
  have d: "length (hops e tr u 10) = 10"
    "\<forall>s \<in> set (hops e tr u 10). 300 \<le> step_status s \<and> step_status s < 400"
    "step_url (hd (hops e tr u 10)) = u"
    by simp_all
  show ?thesis using a c d unfolding b by simp
qed

theorem getRedirectChain_too_many_redirects_witness:
  "redirects_ahead (example_env [] eleven_hops [] []) [] ''https://example.com/r0'' 11
   \<and> ri_finalStatus (fst (getRedirectChain (example_env [] eleven_hops [] []) [] ''https://example.com/r0'')) = 0
   \<and> ri_error (fst (getRedirectChain (example_env [] eleven_hops [] []) [] ''https://example.com/r0'')) = Some ''Too many redirects''
   \<and> ri_chain (fst (getRedirectChain (example_env [] eleven_hops [] []) [] ''https://example.com/r0'')) =
       [\<lparr>step_url = ''https://example.com/r0'', step_status = 302\<rparr>,
        \<lparr>step_url = ''https://example.com/r1'', step_status = 302\<rparr>,
        \<lparr>step_url = ''https://example.com/r2'', step_status = 302\<rparr>,
        \<lparr>step_url = ''https://example.com/r3'', step_status = 302\<rparr>,
        \<lparr>step_url = ''https://example.com/r4'', step_status = 302\<rparr>,
        \<lparr>step_url = ''https://example.com/r5'', step_status = 302\<rparr>,
        \<lparr>step_url = ''https://example.com/r6'', step_status = 302\<rparr>,
        \<lparr>step_url = ''https://example.com/r7'', step_status = 302\<rparr>,
        \<lparr>step_url = ''https://example.com/r8'', step_status = 302\<rparr>,
        \<lparr>step_url = ''https://example.com/r9'', step_status = 302\<rparr>]
   \<and> ri_finalUrl (fst (getRedirectChain (example_env [] eleven_hops [] []) [] ''https://example.com/r0''))
       = ''https://example.com/r10''"
proof -
  have h: "redirects_ahead (example_env [] eleven_hops [] []) [] ''https://example.com/r0'' 11"
    by code_simp
  have n: "(10::nat) \<le> 11" by simp
  have c: "hops (example_env [] eleven_hops [] []) [] ''https://example.com/r0'' 10 =
       [\<lparr>step_url = ''https://example.com/r0'', step_status = 302\<rparr>,
        \<lparr>step_url = ''https://example.com/r1'', step_status = 302\<rparr>,
        \<lparr>step_url = ''https://example.com/r2'', step_status = 302\<rparr>,
        \<lparr>step_url = ''https://example.com/r3'', step_status = 302\<rparr>,
        \<lparr>step_url = ''https://example.com/r4'', step_status = 302\<rparr>,
        \<lparr>step_url = ''https://example.com/r5'', step_status = 302\<rparr>,
        \<lparr>step_url = ''https://example.com/r6'', step_status = 302\<rparr>,
        \<lparr>step_url = ''https://example.com/r7'', step_status = 302\<rparr>,
        \<lparr>step_url = ''https://example.com/r8'', step_status = 302\<rparr>,
        \<lparr>step_url = ''https://example.com/r9'', step_status = 302\<rparr>]"
    by code_simp
  have f: "ri_finalUrl (fst (getRedirectChain (example_env [] eleven_hops [] []) [] ''https://example.com/r0''))
       = ''https://example.com/r10''"
    by code_simp
  show ?thesis using h f getRedirectChain_too_many_redirects [OF n h] unfolding c by simp
qed

section \<open>The retry policy\<close>

lemma get_attempts_append [simp]: "get_attempts (xs @ ys) = get_attempts xs @ get_attempts ys"
  by (induction xs rule: get_attempts.induct) auto



text \<open>With a negative \<^verbatim>\<open>retries\<close> no request is sent and \<^verbatim>\<open>null\<close> is thrown.\<close>

lemma fetchWithRetry_no_attempt:
  "rs_retries rs < 0 \<Longrightarrow> fetchWithRetry e u rs tr = (Inl None, tr)"
  by (simp add: fetchWithRetry_def fetchWithRetry_loop.simps)




section \<open>Sitemap detection\<close>

lemma sitemap_each_sound:
  assumes "l \<in> set (sitemap_each e baseUrl seen ts)"
  shows "li_anchorText l = [] \<and> li_rel l = [] \<and> li_sourceUrl l = baseUrl \<and> li_targetUrl l \<noteq> []
         \<and> li_targetUrl l \<notin> set seen
         \<and> (\<exists>t \<in> set ts. trim t \<noteq> [] \<and> normalizeUrl e (trim t) None = Some (li_targetUrl l))"
  using assms
proof (induction ts arbitrary: seen)
  case Nil
  then show ?case by simp
next
  case (Cons t ts)
  from Cons.prems show ?case
    by (auto split: if_splits option.splits dest!: Cons.IH)
qed

lemma sitemap_each_complete:
  assumes "t \<in> set ts" "trim t \<noteq> []" "normalizeUrl e (trim t) None = Some n" "n \<noteq> []" "n \<notin> set seen"
  shows "n \<in> li_targetUrl ` set (sitemap_each e baseUrl seen ts)"
  using assms
proof (induction ts arbitrary: seen)
  case Nil
  then show ?case by simp
next
  case (Cons a ts)
  show ?case
  proof (cases "trim a \<noteq> [] \<and> normalizeUrl e (trim a) None = Some n")
    case True
    with Cons.prems(4,5) show ?thesis by simp
  next
    case False
    with Cons.prems have t: "t \<in> set ts" by auto
    have ih: "\<And>seen'. n \<notin> set seen' \<Longrightarrow> n \<in> li_targetUrl ` set (sitemap_each e baseUrl seen' ts)"
      using Cons.IH [OF t Cons.prems(2,3,4)] by blast
    show ?thesis
    proof (cases "normalizeUrl e (trim a) None")
      case None
      then show ?thesis using ih [OF Cons.prems(5)] by simp
    next
      case (Some n')
      show ?thesis
      proof (cases "trim a = [] \<or> n' = [] \<or> n' \<in> set seen")
        case True
        then show ?thesis using Some ih [OF Cons.prems(5)] by auto
      next
        case f: False
        with False Some have "n' \<noteq> n" by auto
        then have "n \<notin> set (n' # seen)" using Cons.prems(5) by auto
        from ih [OF this] f Some show ?thesis by simp
      qed
    qed
  qed
qed

text \<open>
  The two modes of \<^verbatim>\<open>extractLinks\<close> and the test that chooses between them. In sitemap
  mode the target links are what the \<^verbatim>\<open>loc\<close> texts normalise to, each with empty anchor text
  and no relation tokens.
\<close>

lemma extractLinks_modes:
  "(isSitemap html \<longleftrightarrow>
      prefix ''<?xml'' (toLowerCase (trim html))
      \<or> includes_str (toLowerCase (trim html)) ''<urlset''
      \<or> includes_str (toLowerCase (trim html)) ''<sitemapindex'')
   \<and> (isSitemap html \<longrightarrow>
        li_targetUrl ` set (extractLinks e html baseUrl) = sitemap_targets e html
        \<and> (\<forall>l \<in> set (extractLinks e html baseUrl). li_anchorText l = [] \<and> li_rel l = []))
   \<and> (\<not> isSitemap html \<longrightarrow>
        extractLinks e html baseUrl = anchor_each e baseUrl [] (cheerio_anchors e html))"
proof -
  have a: "isSitemap html \<longleftrightarrow>
      prefix ''<?xml'' (toLowerCase (trim html))
      \<or> includes_str (toLowerCase (trim html)) ''<urlset''
      \<or> includes_str (toLowerCase (trim html)) ''<sitemapindex''"
    by (simp add: isSitemap_def Let_def)
  have b: "li_targetUrl ` set (sitemap_each e baseUrl [] (cheerio_locs e html)) = sitemap_targets e html"
  proof (rule set_eqI, rule iffI)
    fix n assume "n \<in> li_targetUrl ` set (sitemap_each e baseUrl [] (cheerio_locs e html))"
    then obtain l where "l \<in> set (sitemap_each e baseUrl [] (cheerio_locs e html))" "n = li_targetUrl l"
      by blast
    with sitemap_each_sound [of l e baseUrl "[]" "cheerio_locs e html"]
    show "n \<in> sitemap_targets e html" by (auto simp: sitemap_targets_def)
  next
    fix n assume "n \<in> sitemap_targets e html"
    then obtain t where "t \<in> set (cheerio_locs e html)" "trim t \<noteq> []"
        "normalizeUrl e (trim t) None = Some n" "n \<noteq> []"
      by (auto simp: sitemap_targets_def)
    from sitemap_each_complete [OF this, of "[]" baseUrl]
    show "n \<in> li_targetUrl ` set (sitemap_each e baseUrl [] (cheerio_locs e html))" by simp
  qed
  have c: "\<forall>l \<in> set (sitemap_each e baseUrl [] (cheerio_locs e html)). li_anchorText l = [] \<and> li_rel l = []"
    using sitemap_each_sound by blast
  show ?thesis
    using a b c by (simp add: extractLinks_def extractLinksFromSitemap_def)
qed

text \<open>
  Claim C6 asks for sitemap mode exactly when the body is an XML document with a
  \<^verbatim>\<open>urlset\<close> or \<^verbatim>\<open>sitemapindex\<close> root. \<^verbatim>\<open>isSitemap\<close>, which is to tell whether a body is an
  XML sitemap, says yes to every body that starts with an XML declaration. The XHTML page,
  whose root is \<^verbatim>\<open>html\<close> and which names neither \<^verbatim>\<open>urlset\<close> nor \<^verbatim>\<open>sitemapindex\<close>, is taken
  for a sitemap: it yields no link, its anchor is lost, where reading it as HTML yields the
  link to \<^verbatim>\<open>/b\<close>. The sitemap proper is read as one and yields its two entries.
\<close>

theorem xhtml_page_read_as_sitemap:
  "isSitemap example_xhtml
   \<and> \<not> includes_str (toLowerCase (trim example_xhtml)) ''<urlset''
   \<and> \<not> includes_str (toLowerCase (trim example_xhtml)) ''<sitemapindex''
   \<and> extractLinks sitemap_env example_xhtml ''https://example.com/a'' = []
   \<and> anchor_each sitemap_env ''https://example.com/a'' [] (cheerio_anchors sitemap_env example_xhtml)
       = [\<lparr>li_sourceUrl = ''https://example.com/a'', li_targetUrl = ''https://example.com/b'',
            li_anchorText = ''b'', li_rel = [], li_isInternal = True\<rparr>]
   \<and> isSitemap example_sitemap
   \<and> map li_targetUrl (extractLinks sitemap_env example_sitemap ''https://example.com/sitemap.xml'')
       = [''https://example.com/a'', ''https://example.com/b'']"
  by code_simp

section \<open>What the loops need of the platform\<close>

text \<open>The parser of the concrete environment is such a constructor.\<close>

lemma toLowerChar_separator: "toLowerChar c \<in> set ''/?#:'' \<Longrightarrow> c \<in> set ''/?#:''"
  by (auto simp: toLowerChar_def split: option.splits if_splits)

lemma parse_authority_props:
  assumes "parse_authority proto rest = Some p"
  shows "protocol p = proto \<and> hostname p \<noteq> [] \<and> hd (hostname p) \<notin> set ''/?#:'' \<and> pathname p \<noteq> []"
proof -
  let ?auth = "takeWhile (\<lambda>c. c \<notin> set ''/?#'') rest"
  let ?h = "takeWhile (\<lambda>c. c \<noteq> CHR '':'') ?auth"
  from assms have ne: "?h \<noteq> []" and p: "protocol p = proto" "hostname p = toLowerCase ?h" "pathname p \<noteq> []"
    by (auto simp: parse_authority_def Let_def split: if_splits)
  from ne have "hd ?h \<in> set ?h" by simp
  then have a: "hd ?h \<noteq> CHR '':''" and "hd ?h \<in> set ?auth"
    by (auto dest: set_takeWhileD)
  then have b: "hd ?h \<notin> set ''/?#''"
    by (auto dest: set_takeWhileD)
  have "hd (hostname p) = toLowerChar (hd ?h)"
    using ne p(2) by (simp add: toLowerCase_def hd_map)
  with a b toLowerChar_separator [of "hd ?h"] have "hd (hostname p) \<notin> set ''/?#:''"
    by auto
  with ne p show ?thesis by (simp add: toLowerCase_def)
qed

lemma parse_absolute_props:
  assumes "parse_absolute s = Some p"
  shows "protocol p \<in> {''https:'', ''http:'', ''ftp:''} \<and> hostname p \<noteq> []
         \<and> hd (hostname p) \<notin> set ''/?#:'' \<and> pathname p \<noteq> []"
  using assms parse_authority_props
  by (fastforce simp: parse_absolute_def split: if_splits)

lemma parse_authority_accepts:
  assumes "h \<noteq> []" "hd h \<notin> set ''/?#:''"
  shows "parse_authority proto (h @ rest) \<noteq> None"
proof -
  from assms obtain c cs where h: "h = c # cs" and c: "c \<notin> set ''/?#:''"
    by (cases h) auto
  then show ?thesis
    by (auto simp: parse_authority_def Let_def)
qed

lemma parse_absolute_accepts:
  assumes "proto \<in> {''https:'', ''http:'', ''ftp:''}" "h \<noteq> []" "hd h \<notin> set ''/?#:''"
  shows "parse_absolute (proto @ ''//'' @ h @ rest) \<noteq> None"
  using assms(1) parse_authority_accepts [OF assms(2,3)]
  by (auto simp: parse_absolute_def)

lemma example_parseURL_props:
  assumes "example_parseURL s b = Some p"
  shows "protocol p \<in> {''https:'', ''http:'', ''ftp:''} \<and> hostname p \<noteq> []
         \<and> hd (hostname p) \<notin> set ''/?#:'' \<and> pathname p \<noteq> []"
  using assms parse_absolute_props
  by (auto simp: example_parseURL_def split: option.splits if_splits)

lemma example_env_ok: "env_ok (example_env pages heads docs sitemaps)"
  unfolding env_ok_def
proof (intro allI impI)
  fix u b n
  assume "normalizeUrl (example_env pages heads docs sitemaps) u b = Some n"
  then obtain p0 where p0: "example_parseURL u b = Some p0"
    and n: "n = (let normalized = href (p0\<lparr>hash := []\<rparr>)
                 in if suffix ''/'' normalized \<and> pathname p0 \<noteq> ''/'' then butlast normalized else normalized)"
    by (auto simp: normalizeUrl_def example_env_def Let_def split: option.splits)
  from example_parseURL_props [OF p0] have
    pr: "protocol p0 \<in> {''https:'', ''http:'', ''ftp:''}" and h: "hostname p0 \<noteq> []"
    and hd: "hd (hostname p0) \<notin> set ''/?#:''" and pa: "pathname p0 \<noteq> []"
    by auto
  define X where "X = (if port p0 = [] then [] else '':'' @ port p0) @ pathname p0 @ search p0"
  have hr: "href (p0\<lparr>hash := []\<rparr>) = protocol p0 @ ''//'' @ hostname p0 @ X"
    by (simp add: href_def X_def)
  have X: "X \<noteq> []" using pa by (simp add: X_def)
  have bl: "butlast (href (p0\<lparr>hash := []\<rparr>)) = protocol p0 @ ''//'' @ hostname p0 @ butlast X"
    unfolding hr using X by (simp add: butlast_append)
  have "\<exists>rest. n = protocol p0 @ ''//'' @ hostname p0 @ rest"
    unfolding n Let_def bl using hr by (cases "suffix ''/'' (href (p0\<lparr>hash := []\<rparr>)) \<and> pathname p0 \<noteq> ''/''") auto
  then obtain rest where "n = protocol p0 @ ''//'' @ hostname p0 @ rest" ..
  with parse_absolute_accepts [OF pr h hd, of rest]
  show "parseURL (example_env pages heads docs sitemaps) n None \<noteq> None"
    by (auto simp: example_env_def example_parseURL_def split: option.splits)
qed

section \<open>The traces of the network calls\<close>

lemma getRedirectChain_loop_trace:
  "\<exists>es. snd (getRedirectChain_loop e m chain u c tr) = tr @ es \<and> list_all is_network es"
proof (induction e m chain u c tr rule: getRedirectChain_loop.induct)
  case (1 e maxRedirects chain currentUrl redirectCount tr)
  show ?case
  proof (cases "redirectCount < maxRedirects")
    case False
    then show ?thesis by (subst getRedirectChain_loop.simps) simp
  next
    case lt: True
    show ?thesis
    proof (cases "http_head e tr currentUrl")
      case (Inl err)
      with lt show ?thesis
        by (subst getRedirectChain_loop.simps) (simp add: is_network_def)
    next
      case (Inr resp)
      show ?thesis
      proof (cases "300 \<le> head_status resp \<and> head_status resp < 400 \<and> location resp \<noteq> None
                 \<and> location resp \<noteq> Some []")
        case False
        with lt Inr show ?thesis
          by (subst getRedirectChain_loop.simps) (auto simp add: is_network_def)
      next
        case redir: True
        show ?thesis
        proof (cases "parseURL e (the (location resp)) (Some currentUrl)")
          case None
          with lt Inr redir show ?thesis
            by (subst getRedirectChain_loop.simps) (auto simp add: is_network_def)
        next
          case (Some target)
          from "1.IH" [OF lt Inr redir Some] obtain es where
            "snd (getRedirectChain_loop e maxRedirects
                   (chain @ [\<lparr>step_url = currentUrl, step_status = head_status resp\<rparr>])
                   (href target) (redirectCount + 1) (tr @ [EvHead currentUrl (Inr resp)]))
             = (tr @ [EvHead currentUrl (Inr resp)]) @ es" "list_all is_network es"
            by blast
          then have "snd (getRedirectChain_loop e maxRedirects chain currentUrl redirectCount tr)
               = tr @ (EvHead currentUrl (Inr resp) # es) \<and> list_all is_network (EvHead currentUrl (Inr resp) # es)"
            using lt Inr redir Some
            by (subst getRedirectChain_loop.simps) (simp add: is_network_def)
          then show ?thesis by blast
        qed
      qed
    qed
  qed
qed

lemma getRedirectChain_trace:
  "\<exists>es. snd (getRedirectChain e tr u) = tr @ es \<and> list_all is_network es"
  by (simp add: getRedirectChain_def getRedirectChain_loop_trace)

lemma fetchWithRetry_loop_trace:
  "\<exists>es. snd (fetchWithRetry_loop e u retries a le tr) = tr @ es \<and> list_all is_network es"
proof (induction e u retries a le tr rule: fetchWithRetry_loop.induct)
  case (1 e u retries attempt lastError tr)
  show ?case
  proof (cases "int attempt \<le> retries")
    case False
    then show ?thesis by (subst fetchWithRetry_loop.simps) simp
  next
    case le: True
    show ?thesis
    proof (cases "http_get e tr u")
      case (Inl err)
      show ?thesis
      proof (cases "int attempt < retries")
        case True
        from "1.IH"(1) [OF le Inl True] obtain es where
          "snd (fetchWithRetry_loop e u retries (attempt + 1) (Some err)
                (tr @ [EvGet u attempt (Inl err), EvSleep (Ms (1000 * (of_nat attempt + 1)))]))
           = (tr @ [EvGet u attempt (Inl err), EvSleep (Ms (1000 * (of_nat attempt + 1)))]) @ es"
          "list_all is_network es"
          by blast
        then have "snd (fetchWithRetry_loop e u retries attempt lastError tr)
             = tr @ (EvGet u attempt (Inl err) # EvSleep (Ms (1000 * (of_nat attempt + 1))) # es)
             \<and> list_all is_network (EvGet u attempt (Inl err) # EvSleep (Ms (1000 * (of_nat attempt + 1))) # es)"
          using le Inl True by (subst fetchWithRetry_loop.simps) (simp add: is_network_def)
        then show ?thesis by blast
      next
        case False
        from "1.IH"(2) [OF le Inl False] obtain es where
          "snd (fetchWithRetry_loop e u retries (attempt + 1) (Some err) (tr @ [EvGet u attempt (Inl err)]))
           = (tr @ [EvGet u attempt (Inl err)]) @ es"
          "list_all is_network es"
          by blast
        then have "snd (fetchWithRetry_loop e u retries attempt lastError tr)
             = tr @ (EvGet u attempt (Inl err) # es)
             \<and> list_all is_network (EvGet u attempt (Inl err) # es)"
          using le Inl False by (subst fetchWithRetry_loop.simps) (simp add: is_network_def)
        then show ?thesis by blast
      qed
    next
      case (Inr resp)
      show ?thesis
      proof (cases "status resp \<ge> 500 \<and> int attempt < retries")
        case True
        from "1.IH"(3) [OF le Inr True] obtain es where
          "snd (fetchWithRetry_loop e u retries (attempt + 1)
                (Some (JsError ''Error'' (''Server error: '' @ show_int (status resp))))
                (tr @ [EvGet u attempt (Inr resp), EvSleep (Ms (1000 * (of_nat attempt + 1)))]))
           = (tr @ [EvGet u attempt (Inr resp), EvSleep (Ms (1000 * (of_nat attempt + 1)))]) @ es"
          "list_all is_network es"
          by blast
        then have "snd (fetchWithRetry_loop e u retries attempt lastError tr)
             = tr @ (EvGet u attempt (Inr resp) # EvSleep (Ms (1000 * (of_nat attempt + 1))) # es)
             \<and> list_all is_network (EvGet u attempt (Inr resp) # EvSleep (Ms (1000 * (of_nat attempt + 1))) # es)"
          using le Inr True by (subst fetchWithRetry_loop.simps) (simp add: is_network_def)
        then show ?thesis by blast
      next
        case False
        have "snd (fetchWithRetry_loop e u retries attempt lastError tr) = tr @ [EvGet u attempt (Inr resp)]"
          using le Inr False by (subst fetchWithRetry_loop.simps) auto
        then show ?thesis by (auto simp: is_network_def)
      qed
    qed
  qed
qed

lemma fetchWithRetry_trace:
  "\<exists>es. snd (fetchWithRetry e u rs tr) = tr @ es \<and> list_all is_network es"
  by (simp add: fetchWithRetry_def fetchWithRetry_loop_trace)

text \<open>What every iteration keeps holds when the loop ends.\<close>

lemma crawl_loop_invariant:
  assumes "P st" and "\<And>s. P s \<Longrightarrow> crawl_continues e cfg s \<Longrightarrow> P (crawl_step e cfg s)"
  shows "P (crawl_loop e cfg st)"
  using assms
proof (induction e cfg st rule: crawl_loop.induct)
  case (1 e cfg st)
  show ?case
  proof (cases "crawl_continues e cfg st")
    case True
    have "P (crawl_step e cfg st)" by (rule "1.prems"(2) [OF "1.prems"(1) True])
    from "1.IH" [OF True this "1.prems"(2)] show ?thesis
      using True by (subst crawl_loop.simps) simp
  next
    case False
    with "1.prems" show ?thesis by (subst crawl_loop.simps) simp
  qed
qed

lemma crawl_states_last: "last (crawl_states e cfg st) = crawl_loop e cfg st"
proof (induction e cfg st rule: crawl_loop.induct)
  case (1 e cfg st)
  show ?case
  proof (cases "crawl_continues e cfg st")
    case True
    have ne: "crawl_states e cfg (crawl_step e cfg st) \<noteq> []"
      by (subst crawl_states.simps) simp
    from "1.IH" [OF True] True ne show ?thesis
      by (subst crawl_states.simps, subst crawl_loop.simps) simp
  next
    case False
    then show ?thesis by (subst crawl_states.simps, subst crawl_loop.simps) simp
  qed
qed

lemma crawl_states_invariant:
  assumes "P st" and "\<And>s. P s \<Longrightarrow> crawl_continues e cfg s \<Longrightarrow> P (crawl_step e cfg s)"
  shows "\<forall>s \<in> set (crawl_states e cfg st). P s"
  using assms
proof (induction e cfg st rule: crawl_states.induct)
  case (1 e cfg st)
  show ?case
  proof (cases "crawl_continues e cfg st")
    case True
    have "P (crawl_step e cfg st)" by (rule "1.prems"(2) [OF "1.prems"(1) True])
    from "1.IH" [OF True this "1.prems"(2)] "1.prems"(1) True show ?thesis
      by (subst crawl_states.simps) simp
  next
    case False
    with "1.prems"(1) show ?thesis by (subst crawl_states.simps) simp
  qed
qed

section \<open>Invariants of the crawl loop\<close>

lemma network_narration: "list_all is_network es \<Longrightarrow> list_all is_narration es"
  by (induction es) (auto simp: is_network_def is_narration_def split: event.splits)

lemma process_link_results:
  "\<exists>r. results (fst (process_link e cfg item rc link st)) = results st @ [r]
       \<and> lr_depth r = fi_depth item \<and> lr_sourceUrl r = fi_url item
       \<and> lr_targetUrl r = li_targetUrl link \<and> lr_retryCount r = Some rc"
  by (simp add: process_link_def Let_def split: option.splits)

lemma process_link_queue:
  "(queue (fst (process_link e cfg item rc link st)) = queue st
      \<and> visited (fst (process_link e cfg item rc link st)) = visited st)
   \<or> (queue (fst (process_link e cfg item rc link st))
          = queue st @ [\<lparr>fi_url = li_targetUrl link, fi_depth = fi_depth item + 1, fi_sourceUrl = None\<rparr>]
        \<and> visited (fst (process_link e cfg item rc link st)) = visited st @ [li_targetUrl link]
        \<and> c_recursive cfg \<and> li_isInternal link \<and> js_less (fi_depth item) (c_maxDepth cfg)
        \<and> li_targetUrl link \<notin> set (visited st)
        \<and> snd (process_link e cfg item rc link st) = None)"
  by (simp add: process_link_def Let_def split: option.splits)

lemma process_links_preserves:
  assumes "P st"
    and "\<And>s link. P s \<Longrightarrow> link \<in> set links \<Longrightarrow> \<not> js_ge (length (results s)) (c_maxUrls cfg)
            \<Longrightarrow> \<not> isClosed e (trace s) \<Longrightarrow> \<not> filtered_out e cfg (li_targetUrl link)
            \<Longrightarrow> P (fst (process_link e cfg item rc link s))"
  shows "P (fst (process_links e cfg item rc links st))"
  using assms
proof (induction links arbitrary: st)
  case Nil
  then show ?case by simp
next
  case (Cons link rest)
  have step: "\<And>s l. P s \<Longrightarrow> l \<in> set rest \<Longrightarrow> \<not> js_ge (length (results s)) (c_maxUrls cfg)
            \<Longrightarrow> \<not> isClosed e (trace s) \<Longrightarrow> \<not> filtered_out e cfg (li_targetUrl l)
            \<Longrightarrow> P (fst (process_link e cfg item rc l s))"
    using Cons.prems(2) by simp
  show ?case
  proof (cases "js_ge (length (results st)) (c_maxUrls cfg) \<or> isClosed e (trace st)")
    case True
    with Cons.prems(1) show ?thesis by auto
  next
    case go: False
    show ?thesis
    proof (cases "filtered_out e cfg (li_targetUrl link)")
      case True
      with go Cons.IH [OF Cons.prems(1) step] show ?thesis by simp
    next
      case False
      have p1: "P (fst (process_link e cfg item rc link st))"
        using Cons.prems(2) [OF Cons.prems(1), of link] go False by simp
      obtain st1 thr1 where pl: "process_link e cfg item rc link st = (st1, thr1)"
        by (cases "process_link e cfg item rc link st")
      with p1 have p1': "P st1" by simp
      show ?thesis
      proof (cases thr1)
        case None
        with go False pl Cons.IH [OF p1' step] show ?thesis by simp
      next
        case (Some err)
        with go False pl p1' show ?thesis by simp
      qed
    qed
  qed
qed

text \<open>
  The shape of one page: the state the links are processed from differs from the state
  before by narration only, and what follows is the links and at most one error result.
\<close>

lemma fetch_page_cases:
  obtains (failed) es msg where "list_all is_narration es"
      "fetch_page e cfg item st = push_error e item msg (st\<lparr>trace := trace st @ es\<rparr>)"
      "length (results st) > 0 \<longrightarrow> es \<noteq> [] \<and> hd es = EvSleep (c_delayMs cfg)"
  | (fetched) es rc html where "list_all is_narration es"
      "fetch_page e cfg item st =
         fst (process_links e cfg item rc (extractLinks e html (fi_url item)) (st\<lparr>trace := trace st @ es\<rparr>))"
      "snd (process_links e cfg item rc (extractLinks e html (fi_url item)) (st\<lparr>trace := trace st @ es\<rparr>)) = None"
  | (thrown) es rc html err where "list_all is_narration es"
      "fetch_page e cfg item st =
         push_error e item (err_message err)
           (fst (process_links e cfg item rc (extractLinks e html (fi_url item)) (st\<lparr>trace := trace st @ es\<rparr>)))"
      "snd (process_links e cfg item rc (extractLinks e html (fi_url item)) (st\<lparr>trace := trace st @ es\<rparr>)) = Some err"
proof -
  define tr1 where "tr1 = (if length (results st) > 0 then trace st @ [EvSleep (c_delayMs cfg)] else trace st)"
  define es1 where "es1 = (if length (results st) > 0 then [EvSleep (c_delayMs cfg)] else [])"
  have tr1: "tr1 = trace st @ es1" and n1: "list_all is_narration es1"
    and h1: "length (results st) > 0 \<longrightarrow> es1 \<noteq> [] \<and> hd es1 = EvSleep (c_delayMs cfg)"
    by (auto simp: tr1_def es1_def is_narration_def)
  define fetched where "fetched = fetchWithRetry e (fi_url item) (c_settings cfg) tr1"
  from fetchWithRetry_trace [of e "fi_url item" "c_settings cfg" tr1] obtain es2 where
    es2: "snd fetched = tr1 @ es2" "list_all is_network es2"
    unfolding fetched_def by blast
  have n2: "list_all is_narration (es1 @ es2)" using n1 network_narration [OF es2(2)] by simp
  have t2: "snd fetched = trace st @ (es1 @ es2)" using es2(1) tr1 by simp
  have h2: "length (results st) > 0 \<longrightarrow> es1 @ es2 \<noteq> [] \<and> hd (es1 @ es2) = EvSleep (c_delayMs cfg)"
    using h1 by auto
  show ?thesis
  proof (cases "fst fetched")
    case (Inl err)
    then have eq: "fetch_page e cfg item st = push_error e item (caught_message err) (st\<lparr>trace := trace st @ (es1 @ es2)\<rparr>)"
      unfolding fetch_page_def Let_def fetched_def [symmetric] tr1_def [symmetric] t2 [symmetric] by simp
    show ?thesis by (rule failed [OF n2 eq h2])
  next
    case (Inr a)
    obtain resp rc where a: "a = (resp, rc)" by (cases a)
    show ?thesis
    proof (cases "text_body resp")
      case (Inl err)
      with Inr a have eq: "fetch_page e cfg item st = push_error e item (err_message err) (st\<lparr>trace := trace st @ (es1 @ es2)\<rparr>)"
        unfolding fetch_page_def Let_def fetched_def [symmetric] tr1_def [symmetric] t2 [symmetric] by simp
      show ?thesis by (rule failed [OF n2 eq h2])
    next
      case html: (Inr html)
      define ev where "ev = EvLog success (''Found '' @ show_nat (length (extractLinks e html (fi_url item))) @ '' links on '' @ fi_url item)"
      define es3 where "es3 = (if isClosed e (snd fetched) then [] else [ev])"
      have t3: "emit e (snd fetched) ev = trace st @ (es1 @ es2 @ es3)"
        using t2 by (simp add: emit_def es3_def)
      have n3: "list_all is_narration (es1 @ es2 @ es3)"
        using n2 by (simp add: es3_def ev_def is_narration_def)
      let ?pl = "process_links e cfg item rc (extractLinks e html (fi_url item)) (st\<lparr>trace := trace st @ (es1 @ es2 @ es3)\<rparr>)"
      have eq: "fetch_page e cfg item st = (case ?pl of (st', None) \<Rightarrow> st' | (st', Some err) \<Rightarrow> push_error e item (err_message err) st')"
        unfolding fetch_page_def Let_def fetched_def [symmetric] tr1_def [symmetric] t3 [symmetric] ev_def
        using Inr a html by simp
      show ?thesis
      proof (cases "snd ?pl")
        case None
        then have eq': "fetch_page e cfg item st = fst ?pl" unfolding eq by (cases ?pl) simp
        show ?thesis by (rule fetched [OF n3 eq' None])
      next
        case (Some err)
        then have eq': "fetch_page e cfg item st = push_error e item (err_message err) (fst ?pl)"
          unfolding eq by (cases ?pl) simp
        show ?thesis by (rule thrown [OF n3 eq' Some])
      qed
    qed
  qed
qed

lemma fetch_page_preserves:
  assumes "P st"
    and "\<And>s es. P s \<Longrightarrow> list_all is_narration es \<Longrightarrow> P (s\<lparr>trace := trace s @ es\<rparr>)"
    and "\<And>s link rc. P s \<Longrightarrow> \<not> js_ge (length (results s)) (c_maxUrls cfg)
            \<Longrightarrow> \<not> isClosed e (trace s) \<Longrightarrow> \<not> filtered_out e cfg (li_targetUrl link)
            \<Longrightarrow> P (fst (process_link e cfg item rc link s))"
    and "\<And>s msg. P s \<Longrightarrow> P (push_error e item msg s)"
  shows "P (fetch_page e cfg item st)"
proof -
  have links: "\<And>rc links es. list_all is_narration es
      \<Longrightarrow> P (fst (process_links e cfg item rc links (st\<lparr>trace := trace st @ es\<rparr>)))"
  proof -
    fix rc links es
    assume "list_all is_narration es"
    then have "P (st\<lparr>trace := trace st @ es\<rparr>)" using assms(1,2) by blast
    then show "P (fst (process_links e cfg item rc links (st\<lparr>trace := trace st @ es\<rparr>)))"
      by (rule process_links_preserves) (rule assms(3))
  qed
  show ?thesis
  proof (cases rule: fetch_page_cases [of e cfg item st])
    case (failed es msg)
    with assms(1,2,4) show ?thesis by simp
  next
    case (fetched es rc html)
    with links show ?thesis by simp
  next
    case (thrown es rc html err)
    with links assms(4) show ?thesis by simp
  qed
qed

lemma crawl_step_preserves:
  assumes "P st" and "crawl_continues e cfg st"
    and "\<And>s es. P s \<Longrightarrow> list_all is_narration es \<Longrightarrow> P (s\<lparr>trace := trace s @ es\<rparr>)"
    and "\<And>s item rest. P s \<Longrightarrow> queue s = item # rest \<Longrightarrow> P (s\<lparr>queue := rest\<rparr>) \<and> Q item"
    and "\<And>s item link rc. P s \<Longrightarrow> Q item \<Longrightarrow> \<not> filtered_out e cfg (fi_url item)
            \<Longrightarrow> \<not> js_ge (length (results s)) (c_maxUrls cfg)
            \<Longrightarrow> \<not> isClosed e (trace s) \<Longrightarrow> \<not> filtered_out e cfg (li_targetUrl link)
            \<Longrightarrow> P (fst (process_link e cfg item rc link s))"
    and "\<And>s item msg. P s \<Longrightarrow> Q item \<Longrightarrow> \<not> filtered_out e cfg (fi_url item) \<Longrightarrow> P (push_error e item msg s)"
  shows "P (crawl_step e cfg st)"
proof -
  from assms(2) obtain item rest where q: "queue st = item # rest"
    by (cases "queue st") (auto simp: crawl_continues_def)
  from assms(4) [OF assms(1) q] have p: "P (st\<lparr>queue := rest\<rparr>)" and qi: "Q item" by auto
  show ?thesis
  proof (cases "filtered_out e cfg (fi_url item)")
    case True
    with p q show ?thesis by (simp add: crawl_step_def)
  next
    case False
    define ev1 where "ev1 = EvProgress (length (results st)) (length (results st) + length rest + 1) (fi_url item)"
    define ev2 where "ev2 = EvLog progress (''Fetching '' @ fi_url item @ '' (depth: '' @ show_nat (fi_depth item) @ '')'')"
    obtain es where es: "emit e (emit e (trace st) ev1) ev2 = trace st @ es" "list_all is_narration es"
    proof -
      have "emit e (emit e (trace st) ev1) ev2 = trace st @ (if isClosed e (trace st) then [] else [ev1] @ (if isClosed e (trace st @ [ev1]) then [] else [ev2]))"
        by (simp add: emit_def)
      moreover have "list_all is_narration (if isClosed e (trace st) then [] else [ev1] @ (if isClosed e (trace st @ [ev1]) then [] else [ev2]))"
        by (simp add: ev1_def ev2_def is_narration_def)
      ultimately show ?thesis using that by blast
    qed
    have "P ((st\<lparr>queue := rest\<rparr>)\<lparr>trace := trace (st\<lparr>queue := rest\<rparr>) @ es\<rparr>)"
      by (rule assms(3) [OF p es(2)])
    then have "P (st\<lparr>queue := rest, trace := trace st @ es\<rparr>)" by simp
    then have "P (fetch_page e cfg item (st\<lparr>queue := rest, trace := trace st @ es\<rparr>))"
      using assms(3) assms(5) [OF _ qi False] assms(6) [OF _ qi False]
      by (rule fetch_page_preserves)
    with q False es(1) show ?thesis
      by (simp add: crawl_step_def Let_def ev1_def ev2_def)
  qed
qed

section \<open>Depth and URL budgets\<close>

lemma depth_inv_step:
  assumes "depth_inv cfg st" "crawl_continues e cfg st"
  shows "depth_inv cfg (crawl_step e cfg st)"
proof (rule crawl_step_preserves [where P = "depth_inv cfg"
      and Q = "\<lambda>item. fi_depth item \<le> js_cap (c_maxDepth cfg)", OF assms])
  show "\<And>s es. depth_inv cfg s \<Longrightarrow> depth_inv cfg (s\<lparr>trace := trace s @ es\<rparr>)"
    by (simp add: depth_inv_def)
  show "\<And>s item rest. depth_inv cfg s \<Longrightarrow> queue s = item # rest
      \<Longrightarrow> depth_inv cfg (s\<lparr>queue := rest\<rparr>) \<and> fi_depth item \<le> js_cap (c_maxDepth cfg)"
    by (simp add: depth_inv_def)
  show "\<And>s item link rc. depth_inv cfg s \<Longrightarrow> fi_depth item \<le> js_cap (c_maxDepth cfg)
      \<Longrightarrow> depth_inv cfg (fst (process_link e cfg item rc link s))"
  proof -
    fix s and item :: frontier_item and link rc
    assume a: "depth_inv cfg s" "fi_depth item \<le> js_cap (c_maxDepth cfg)"
    from process_link_results [of e cfg item rc link s] obtain r where
      r: "results (fst (process_link e cfg item rc link s)) = results s @ [r]" "lr_depth r = fi_depth item"
      by blast
    have "js_less (fi_depth item) (c_maxDepth cfg) \<Longrightarrow> fi_depth item + 1 \<le> js_cap (c_maxDepth cfg)"
      by (auto simp: js_less_def js_cap_def split: option.splits)
    with process_link_queue [of e cfg item rc link s] a r
    show "depth_inv cfg (fst (process_link e cfg item rc link s))"
      by (auto simp: depth_inv_def)
  qed
  show "\<And>s item msg. depth_inv cfg s \<Longrightarrow> fi_depth item \<le> js_cap (c_maxDepth cfg)
      \<Longrightarrow> depth_inv cfg (push_error e item msg s)"
    by (auto simp: depth_inv_def push_error_def Let_def)
qed

lemma seed_stream_depth:
  assumes "\<forall>i \<in> set (fst qv). fi_depth i = 0"
  shows "\<forall>i \<in> set (fst (seed_stream e us qv)). fi_depth i = 0"
  using assms
proof (induction us arbitrary: qv)
  case Nil
  then show ?case by simp
next
  case (Cons u us)
  obtain q v where qv: "qv = (q, v)" by (cases qv)
  with Cons.prems have q0: "\<forall>i\<in>set q. fi_depth i = 0" by simp
  show ?case
  proof (cases "normalizeUrl e u None")
    case None
    with Cons.IH [of "(q, v)"] q0 show ?thesis unfolding qv by simp
  next
    case (Some normalized)
    show ?thesis
    proof (cases "normalized \<noteq> [] \<and> normalized \<notin> set v \<and> isAllowedUrl e normalized")
      case True
      have "\<forall>i\<in>set (fst (q @ [\<lparr>fi_url = normalized, fi_depth = 0, fi_sourceUrl = None\<rparr>], v @ [normalized])). fi_depth i = 0"
        using q0 by simp
      from Cons.IH [OF this] Some True show ?thesis unfolding qv by simp
    next
      case False
      with Cons.IH [of "(q, v)"] q0 Some show ?thesis unfolding qv by auto
    qed
  qed
qed

lemma seed_legacy_depth:
  assumes "\<forall>i \<in> set (fst qv). fi_depth i = 0"
  shows "\<forall>i \<in> set (fst (seed_legacy e us qv)). fi_depth i = 0"
  using assms
proof (induction us arbitrary: qv)
  case Nil
  then show ?case by simp
next
  case (Cons u us)
  obtain q v where qv: "qv = (q, v)" by (cases qv)
  with Cons.prems have q0: "\<forall>i\<in>set q. fi_depth i = 0" by simp
  show ?case
  proof (cases "normalizeUrl e u None")
    case None
    with Cons.IH [of "(q, v)"] q0 show ?thesis unfolding qv by simp
  next
    case (Some normalized)
    show ?thesis
    proof (cases "normalized \<noteq> [] \<and> normalized \<notin> set v")
      case True
      have "\<forall>i\<in>set (fst (q @ [\<lparr>fi_url = normalized, fi_depth = 0, fi_sourceUrl = None\<rparr>], v @ [normalized])). fi_depth i = 0"
        using q0 by simp
      from Cons.IH [OF this] Some True show ?thesis unfolding qv by simp
    next
      case False
      with Cons.IH [of "(q, v)"] q0 Some show ?thesis unfolding qv by auto
    qed
  qed
qed

text \<open>What \<^verbatim>\<open>run_crawl\<close> returns is the state the loop ends in, but for the trace.\<close>

lemma run_crawl_invariant:
  assumes "P \<lparr>results = [], visited = snd qv, queue = fst qv,
      trace = emit e [] (EvLog info (''Starting crawl with '' @ show_nat (length (fst qv)) @ '' seed URL(s)''))\<rparr>"
    and "\<And>s. P s \<Longrightarrow> crawl_continues e cfg s \<Longrightarrow> P (crawl_step e cfg s)"
  obtains st tr where "P st" "run_crawl e cfg qv = st\<lparr>trace := tr\<rparr>"
    "tr = emit e (emit e (trace st) (EvDone (length (results st)) (length (visited st))))
            (EvLog success (''Crawl complete: '' @ show_nat (length (results st)) @ '' links found''))"
proof -
  let ?st0 = "\<lparr>results = [], visited = snd qv, queue = fst qv,
      trace = emit e [] (EvLog info (''Starting crawl with '' @ show_nat (length (fst qv)) @ '' seed URL(s)''))\<rparr>"
  have "P (crawl_loop e cfg ?st0)"
    using assms by (rule crawl_loop_invariant)
  then show ?thesis
    using that [of "crawl_loop e cfg ?st0"] by (simp add: run_crawl_def crawl_start_def Let_def)
qed

lemma run_crawl_depth:
  assumes "\<forall>i \<in> set (fst qv). fi_depth i = 0"
  shows "depth_inv cfg (run_crawl e cfg qv)"
proof -
  let ?st0 = "\<lparr>results = [], visited = snd qv, queue = fst qv,
      trace = emit e [] (EvLog info (''Starting crawl with '' @ show_nat (length (fst qv)) @ '' seed URL(s)''))\<rparr>"
  have "depth_inv cfg ?st0" using assms by (simp add: depth_inv_def)
  then obtain st tr where "depth_inv cfg st" "run_crawl e cfg qv = st\<lparr>trace := tr\<rparr>"
    by (rule run_crawl_invariant [where P = "depth_inv cfg" and cfg = cfg]) (rule depth_inv_step)
  then show ?thesis by (simp add: depth_inv_def)
qed

text \<open>Under \<^const>\<open>env_ok\<close> the links of a page never make the loop throw.\<close>

lemma anchor_each_sound:
  assumes "l \<in> set (anchor_each e baseUrl seen as)"
  shows "\<exists>a \<in> set as. normalizeUrl e (a_href a) (Some baseUrl) = Some (li_targetUrl l)"
  using assms
proof (induction as arbitrary: seen)
  case Nil
  then show ?case by simp
next
  case (Cons a as)
  from Cons.prems show ?case
    by (auto split: if_splits option.splits dest!: Cons.IH)
qed

lemma extractLinks_parse:
  assumes "env_ok e" "l \<in> set (extractLinks e html baseUrl)"
  shows "parseURL e (li_targetUrl l) None \<noteq> None"
proof (cases "isSitemap html")
  case True
  with assms(2) sitemap_each_sound [of l e baseUrl "[]" "cheerio_locs e html"]
  obtain t where "normalizeUrl e (trim t) None = Some (li_targetUrl l)"
    by (auto simp: extractLinks_def extractLinksFromSitemap_def)
  with assms(1) show ?thesis unfolding env_ok_def by blast
next
  case False
  with assms(2) anchor_each_sound [of l e baseUrl "[]" "cheerio_anchors e html"]
  obtain a :: anchor where "normalizeUrl e (a_href a) (Some baseUrl) = Some (li_targetUrl l)"
    by (auto simp: extractLinks_def)
  with assms(1) show ?thesis unfolding env_ok_def by blast
qed

lemma process_link_no_throw:
  "parseURL e (li_targetUrl link) None \<noteq> None \<Longrightarrow> snd (process_link e cfg item rc link st) = None"
  by (auto simp: process_link_def Let_def split: option.splits)

lemma process_links_no_throw:
  assumes "\<forall>l \<in> set links. parseURL e (li_targetUrl l) None \<noteq> None"
  shows "snd (process_links e cfg item rc links st) = None"
  using assms
proof (induction links arbitrary: st)
  case Nil
  then show ?case by simp
next
  case (Cons link rest)
  then have nt: "snd (process_link e cfg item rc link st) = None"
    by (simp add: process_link_no_throw)
  obtain st1 where "process_link e cfg item rc link st = (st1, None)"
    using nt by (cases "process_link e cfg item rc link st") simp
  with Cons show ?case by simp
qed

lemma process_links_count:
  assumes "length (results st) \<le> js_cap (c_maxUrls cfg)" and "c_maxUrls cfg \<noteq> None"
  shows "length (results (fst (process_links e cfg item rc links st))) \<le> js_cap (c_maxUrls cfg)"
proof (rule process_links_preserves [where P = "\<lambda>s. length (results s) \<le> js_cap (c_maxUrls cfg)", OF assms(1)])
  fix s :: crawl_state and link
  assume "\<not> js_ge (length (results s)) (c_maxUrls cfg)" "length (results s) \<le> js_cap (c_maxUrls cfg)"
  moreover note assms(2)
  moreover from process_link_results [of e cfg item rc link s]
  have "length (results (fst (process_link e cfg item rc link s))) = length (results s) + 1" by auto
  ultimately show "length (results (fst (process_link e cfg item rc link s))) \<le> js_cap (c_maxUrls cfg)"
    by (auto simp: js_ge_def js_cap_def split: option.splits)
qed

lemma count_inv_step:
  assumes "env_ok e" "length (results st) \<le> js_cap (c_maxUrls cfg)" "crawl_continues e cfg st"
  shows "length (results (crawl_step e cfg st)) \<le> js_cap (c_maxUrls cfg)"
proof -
  from assms(3) obtain item rest where q: "queue st = item # rest"
    by (cases "queue st") (auto simp: crawl_continues_def)
  from assms(3) have lt: "length (results st) < js_cap (c_maxUrls cfg)"
    by (auto simp: crawl_continues_def js_less_def js_cap_def split: option.splits)
  from assms(3) have some: "c_maxUrls cfg \<noteq> None"
    by (auto simp: crawl_continues_def js_less_def split: option.splits)
  have page: "\<And>tr. length (results (fetch_page e cfg item (st\<lparr>queue := rest, trace := tr\<rparr>))) \<le> js_cap (c_maxUrls cfg)"
  proof -
    fix tr
    let ?s = "st\<lparr>queue := rest, trace := tr\<rparr>"
    show "length (results (fetch_page e cfg item ?s)) \<le> js_cap (c_maxUrls cfg)"
    proof (cases rule: fetch_page_cases [of e cfg item ?s])
      case (failed es msg)
      with lt show ?thesis by (simp add: push_error_def Let_def)
    next
      case (fetched es rc html)
      with process_links_count [of "?s\<lparr>trace := trace ?s @ es\<rparr>" cfg e item rc] assms(2) some
      show ?thesis by simp
    next
      case (thrown es rc html err)
      with process_links_no_throw [of "extractLinks e html (fi_url item)" e cfg item rc]
        extractLinks_parse [OF assms(1)]
      show ?thesis by fastforce
    qed
  qed
  show ?thesis
    using q assms(2) page by (simp add: crawl_step_def Let_def)
qed

lemma run_crawl_count:
  assumes "env_ok e"
  shows "length (results (run_crawl e cfg qv)) \<le> js_cap (c_maxUrls cfg)"
proof -
  obtain st tr where "length (results st) \<le> js_cap (c_maxUrls cfg)" "run_crawl e cfg qv = st\<lparr>trace := tr\<rparr>"
    by (rule run_crawl_invariant [where P = "\<lambda>s. length (results s) \<le> js_cap (c_maxUrls cfg)" and cfg = cfg and e = e and qv = qv])
       (simp_all add: count_inv_step [OF assms])
  then show ?thesis by simp
qed

lemma emitted_results_append [simp]:
  "emitted_results (xs @ ys) = emitted_results xs @ emitted_results ys"
  by (induction xs rule: emitted_results.induct) auto

lemma emitted_results_narration [simp]: "list_all is_narration es \<Longrightarrow> emitted_results es = []"
  by (induction es rule: emitted_results.induct) (auto simp: is_narration_def)

lemma process_link_trace:
  "\<exists>r es es'. results (fst (process_link e cfg item rc link st)) = results st @ [r]
      \<and> trace (fst (process_link e cfg item rc link st))
          = trace st @ es @ (if isClosed e (trace st @ es) then [] else [EvResult r]) @ es'
      \<and> list_all is_narration es \<and> list_all is_narration es'"
proof -
  from getRedirectChain_trace [of e "trace st" "li_targetUrl link"] obtain es where
    es: "snd (getRedirectChain e (trace st) (li_targetUrl link)) = trace st @ es" "list_all is_network es"
    by blast
  have n: "list_all is_narration es" by (rule network_narration [OF es(2)])
  define r where "r = \<lparr>lr_sourceUrl = fi_url item, lr_targetUrl = li_targetUrl link,
                    lr_status = ri_finalStatus (fst (getRedirectChain e (trace st) (li_targetUrl link))),
                    lr_redirectChain = formatRedirectChain (ri_chain (fst (getRedirectChain e (trace st) (li_targetUrl link)))),
                    lr_type = (if li_isInternal link then internal else external),
                    lr_anchorText = li_anchorText link,
                    lr_rel = join '', '' (li_rel link),
                    lr_depth = fi_depth item,
                    lr_error = ri_error (fst (getRedirectChain e (trace st) (li_targetUrl link))),
                    lr_retryCount = Some rc\<rparr>"
  define es' where "es' = (if snd (process_link e cfg item rc link st) = None
                           then [EvSleep (half (c_delayMs cfg))] else [])"
  have n': "list_all is_narration es'" by (simp add: es'_def is_narration_def)
  have "results (fst (process_link e cfg item rc link st)) = results st @ [r]"
    by (simp add: process_link_def Let_def r_def split: option.splits)
  moreover have "trace (fst (process_link e cfg item rc link st))
          = trace st @ es @ (if isClosed e (trace st @ es) then [] else [EvResult r]) @ es'"
    unfolding es'_def
    by (simp add: process_link_def Let_def r_def es(1) emit_def split: option.splits)
  ultimately show ?thesis using n n' by blast
qed

lemma push_error_trace:
  "\<exists>r es'. results (push_error e item msg st) = results st @ [r]
      \<and> trace (push_error e item msg st)
          = trace st @ (if isClosed e (trace st) then [] else [EvResult r]) @ es'
      \<and> list_all (\<lambda>ev. \<exists>m. ev = EvLog error m) es' \<and> length es' \<le> 1
      \<and> ((\<forall>tr. \<not> isClosed e tr) \<longrightarrow> length es' = 1)
      \<and> lr_retryCount r = None \<and> lr_error r = Some msg \<and> lr_status r = 0
      \<and> lr_targetUrl r = fi_url item \<and> lr_depth r = fi_depth item
      \<and> (fi_sourceUrl item = None \<longrightarrow> lr_sourceUrl r = fi_url item)"
  unfolding push_error_def Let_def emit_def by auto

lemma emitted_results_error_logs: "list_all (\<lambda>ev. \<exists>m. ev = EvLog error m) es \<Longrightarrow> emitted_results es = []"
  by (induction es) auto

lemma emitted_inv_step:
  assumes "emitted_inv st" "crawl_continues e cfg st"
  shows "emitted_inv (crawl_step e cfg st)"
proof (rule crawl_step_preserves [where P = emitted_inv and Q = "\<lambda>item. True", OF assms])
  show "\<And>s es. emitted_inv s \<Longrightarrow> list_all is_narration es \<Longrightarrow> emitted_inv (s\<lparr>trace := trace s @ es\<rparr>)"
    by (simp add: emitted_inv_def)
  show "\<And>s item rest. emitted_inv s \<Longrightarrow> queue s = item # rest \<Longrightarrow> emitted_inv (s\<lparr>queue := rest\<rparr>) \<and> True"
    by (simp add: emitted_inv_def)
  show "\<And>s item link rc. emitted_inv s \<Longrightarrow> emitted_inv (fst (process_link e cfg item rc link s))"
  proof -
    fix s item link rc
    assume a: "emitted_inv s"
    from process_link_trace [of e cfg item rc link s] obtain r es es' where
      "results (fst (process_link e cfg item rc link s)) = results s @ [r]"
      "trace (fst (process_link e cfg item rc link s))
          = trace s @ es @ (if isClosed e (trace s @ es) then [] else [EvResult r]) @ es'"
      "list_all is_narration es" "list_all is_narration es'"
      by blast
    with a show "emitted_inv (fst (process_link e cfg item rc link s))"
      by (auto simp: emitted_inv_def intro: list_emb_append_mono)
  qed
  show "\<And>s item msg. emitted_inv s \<Longrightarrow> emitted_inv (push_error e item msg s)"
  proof -
    fix s item msg
    assume a: "emitted_inv s"
    from push_error_trace [of e item msg s] obtain r es' where
      "results (push_error e item msg s) = results s @ [r]"
      "trace (push_error e item msg s) = trace s @ (if isClosed e (trace s) then [] else [EvResult r]) @ es'"
      "list_all (\<lambda>ev. \<exists>m. ev = EvLog error m) es'"
      by blast
    with a show "emitted_inv (push_error e item msg s)"
      by (auto simp: emitted_inv_def emitted_results_error_logs intro: list_emb_append_mono)
  qed
qed

lemma run_crawl_emitted: "emitted_inv (run_crawl e cfg qv)"
proof -
  have "emitted_inv \<lparr>results = [], visited = snd qv, queue = fst qv,
      trace = emit e [] (EvLog info (''Starting crawl with '' @ show_nat (length (fst qv)) @ '' seed URL(s)''))\<rparr>"
    by (simp add: emitted_inv_def emit_def)
  then obtain st tr where st: "emitted_inv st" "run_crawl e cfg qv = st\<lparr>trace := tr\<rparr>"
    "tr = emit e (emit e (trace st) (EvDone (length (results st)) (length (visited st))))
            (EvLog success (''Crawl complete: '' @ show_nat (length (results st)) @ '' links found''))"
    by (rule run_crawl_invariant [where P = emitted_inv and cfg = cfg]) (rule emitted_inv_step)
  have "emitted_results tr = emitted_results (trace st)"
    unfolding st(3) by (simp add: emit_def)
  with st(1,2) show ?thesis by (simp add: emitted_inv_def)
qed

lemma effective_maxUrls_pos: "0 < effective_maxUrls body"
  by (simp add: effective_maxUrls_def)

text \<open>
  Claim C1, as amended. In both handlers the loop ends, and then the number of results, and
  so of the results streamed, is at most the \<^verbatim>\<open>maxUrls\<close> the loop uses: the clamped value
  in the streaming handler, the request's own value in the older one, counted as 0 when it
  is missing or negative. No result has a depth above \<^verbatim>\<open>maxDepth\<close>, counted as 0 when it
  is missing or negative, and no item in the queue has at any iteration, so that no deeper
  item is ever taken from it to be fetched: seeds enter at depth 0 whatever \<^verbatim>\<open>maxDepth\<close>
  is, and a link is queued one level below its page only when the page's depth is less than
  \<^verbatim>\<open>maxDepth\<close>.
\<close>

theorem crawl_within_budget:
  assumes "env_ok e"
  shows "int (length (results (scrape_links_stream e body))) \<le> effective_maxUrls body
    \<and> (\<forall>r \<in> set (results (scrape_links_stream e body)). lr_depth r \<le> js_cap (maxDepth body))
    \<and> (\<forall>s \<in> set (crawl_states e (stream_config e body) (crawl_start e (seed_stream e (urls body) ([], [])))).
          \<forall>i \<in> set (queue s). fi_depth i \<le> js_cap (maxDepth body))
    \<and> subseq (emitted_results (trace (scrape_links_stream e body))) (results (scrape_links_stream e body))
    \<and> length (results (scrape_links_legacy e body)) \<le> js_cap (maxUrls body)
    \<and> (\<forall>r \<in> set (results (scrape_links_legacy e body)). lr_depth r \<le> js_cap (maxDepth body))
    \<and> (\<forall>s \<in> set (crawl_states e (legacy_config e body) (crawl_start e (seed_legacy e (urls body) ([], [])))).
          \<forall>i \<in> set (queue s). fi_depth i \<le> js_cap (maxDepth body))
    \<and> subseq (emitted_results (trace (scrape_links_legacy e body))) (results (scrape_links_legacy e body))"
proof -
  have c1: "length (results (scrape_links_stream e body)) \<le> js_cap (Some (effective_maxUrls body))"
    using run_crawl_count [OF assms, of "stream_config e body"]
    by (simp add: scrape_links_stream_def stream_config_def)
  have c2: "length (results (scrape_links_legacy e body)) \<le> js_cap (maxUrls body)"
    using run_crawl_count [OF assms, of "legacy_config e body"]
    by (simp add: scrape_links_legacy_def legacy_config_def)
  have d1: "depth_inv (stream_config e body) (scrape_links_stream e body)"
    unfolding scrape_links_stream_def
    by (rule run_crawl_depth) (rule seed_stream_depth, simp)
  have d2: "depth_inv (legacy_config e body) (scrape_links_legacy e body)"
    unfolding scrape_links_legacy_def
    by (rule run_crawl_depth) (rule seed_legacy_depth, simp)
  have m: "c_maxDepth (stream_config e body) = maxDepth body" "c_maxDepth (legacy_config e body) = maxDepth body"
    by (simp_all add: stream_config_def legacy_config_def)
  have s1: "\<forall>s \<in> set (crawl_states e (stream_config e body) (crawl_start e (seed_stream e (urls body) ([], [])))).
      depth_inv (stream_config e body) s"
  proof (rule crawl_states_invariant)
    show "depth_inv (stream_config e body) (crawl_start e (seed_stream e (urls body) ([], [])))"
      using seed_stream_depth [of "([], [])" e "urls body"] by (simp add: depth_inv_def crawl_start_def)
  qed (rule depth_inv_step)
  have s2: "\<forall>s \<in> set (crawl_states e (legacy_config e body) (crawl_start e (seed_legacy e (urls body) ([], [])))).
      depth_inv (legacy_config e body) s"
  proof (rule crawl_states_invariant)
    show "depth_inv (legacy_config e body) (crawl_start e (seed_legacy e (urls body) ([], [])))"
      using seed_legacy_depth [of "([], [])" e "urls body"] by (simp add: depth_inv_def crawl_start_def)
  qed (rule depth_inv_step)
  have e1: "emitted_inv (scrape_links_stream e body)" "emitted_inv (scrape_links_legacy e body)"
    by (simp_all add: scrape_links_stream_def scrape_links_legacy_def run_crawl_emitted)
  from c1 effective_maxUrls_pos [of body]
  have "int (length (results (scrape_links_stream e body))) \<le> effective_maxUrls body"
    by (simp add: js_cap_def)
  with c2 d1 d2 e1 s1 s2 show ?thesis
    unfolding depth_inv_def emitted_inv_def m by blast
qed

lemma small_site_ok: "env_ok small_site"
  unfolding small_site_def by (rule example_env_ok)

text \<open>
  Claim C1 as stated fails for a negative \<^verbatim>\<open>maxDepth\<close>: the seed is fetched at depth 0 and
  its two links are reported at depth 0, above a \<^verbatim>\<open>maxDepth\<close> of -1.
\<close>

theorem crawl_within_budget_counterexample:
  "maxDepth ((crawl_request [''https://example.com/a''])\<lparr>maxDepth := Some (- 1)\<rparr>) = Some (- 1)
   \<and> map (\<lambda>r. int (lr_depth r))
        (results (scrape_links_stream small_site
           ((crawl_request [''https://example.com/a''])\<lparr>maxDepth := Some (- 1)\<rparr>))) = [0, 0]
   \<and> map (\<lambda>r. int (lr_depth r))
        (emitted_results (trace (scrape_links_stream small_site
           ((crawl_request [''https://example.com/a''])\<lparr>maxDepth := Some (- 1)\<rparr>)))) = [0, 0]"
  by code_simp

theorem crawl_within_budget_witness:
  "env_ok small_site
   \<and> int (length (results (scrape_links_stream small_site (crawl_request [''https://example.com/a'']))))
       \<le> effective_maxUrls (crawl_request [''https://example.com/a''])
   \<and> effective_maxUrls (crawl_request [''https://example.com/a'']) = 100
   \<and> js_cap (maxDepth (crawl_request [''https://example.com/a''])) = 2
   \<and> map lr_depth (results (scrape_links_stream small_site (crawl_request [''https://example.com/a''])))
       = [0, 0, 1]
   \<and> emitted_results (trace (scrape_links_stream small_site (crawl_request [''https://example.com/a''])))
       = results (scrape_links_stream small_site (crawl_request [''https://example.com/a'']))"
proof -
  have a: "effective_maxUrls (crawl_request [''https://example.com/a'']) = 100"
    "js_cap (maxDepth (crawl_request [''https://example.com/a''])) = 2"
    "map lr_depth (results (scrape_links_stream small_site (crawl_request [''https://example.com/a''])))
       = [0, 0, 1]"
    "emitted_results (trace (scrape_links_stream small_site (crawl_request [''https://example.com/a''])))
       = results (scrape_links_stream small_site (crawl_request [''https://example.com/a'']))"
    by code_simp+
  from crawl_within_budget [OF small_site_ok, of "crawl_request [''https://example.com/a'']"] a
  show ?thesis using small_site_ok by simp
qed

section \<open>Failed pages and their results\<close>

lemma filter_error_log_narration [simp]: "list_all is_narration es \<Longrightarrow> filter is_error_log es = []"
  by (induction es) (auto simp: is_narration_def split: event.splits)





lemma seed_stream_source:
  assumes "\<forall>i \<in> set (fst qv). fi_sourceUrl i = None"
  shows "\<forall>i \<in> set (fst (seed_stream e us qv)). fi_sourceUrl i = None"
  using assms
proof (induction us arbitrary: qv)
  case Nil
  then show ?case by simp
next
  case (Cons u us)
  obtain q v where qv: "qv = (q, v)" by (cases qv)
  with Cons.prems have q0: "\<forall>i\<in>set q. fi_sourceUrl i = None" by simp
  show ?case
  proof (cases "normalizeUrl e u None")
    case None
    with Cons.IH [of "(q, v)"] q0 show ?thesis unfolding qv by simp
  next
    case (Some normalized)
    show ?thesis
    proof (cases "normalized \<noteq> [] \<and> normalized \<notin> set v \<and> isAllowedUrl e normalized")
      case True
      have "\<forall>i\<in>set (fst (q @ [\<lparr>fi_url = normalized, fi_depth = 0, fi_sourceUrl = None\<rparr>], v @ [normalized])). fi_sourceUrl i = None"
        using q0 by simp
      from Cons.IH [OF this] Some True show ?thesis unfolding qv by simp
    next
      case False
      with Cons.IH [of "(q, v)"] q0 Some show ?thesis unfolding qv by auto
    qed
  qed
qed

text \<open>The requests of a crawl and the page fetches they make up.\<close>

lemma get_requests_append [simp]: "get_requests (xs @ ys) = get_requests xs @ get_requests ys"
  by (induction xs rule: get_requests.induct) auto



lemma failures_append [simp]: "failures (xs @ ys) = failures xs @ failures ys"
  by (induction xs rule: failures.induct) (auto split: option.splits)

lemma failures_fst: "set (map fst (failures fs)) \<subseteq> set (map fst fs)"
  by (induction fs rule: failures.induct) (auto split: option.splits)














section \<open>The outbound gate\<close>

lemma gate_inv_step:
  assumes "gate_inv e cfg st" "crawl_continues e cfg st"
  shows "gate_inv e cfg (crawl_step e cfg st)"
proof (rule crawl_step_preserves [where P = "gate_inv e cfg" and Q = "gate_item e cfg", OF assms])
  show "\<And>s es. gate_inv e cfg s \<Longrightarrow> gate_inv e cfg (s\<lparr>trace := trace s @ es\<rparr>)"
    by (simp add: gate_inv_def)
  show "\<And>s item rest. gate_inv e cfg s \<Longrightarrow> queue s = item # rest
      \<Longrightarrow> gate_inv e cfg (s\<lparr>queue := rest\<rparr>) \<and> gate_item e cfg item"
    by (simp add: gate_inv_def gate_item_def)
  show "\<And>s item link rc. gate_inv e cfg s \<Longrightarrow> gate_item e cfg item
      \<Longrightarrow> gate_inv e cfg (fst (process_link e cfg item rc link s))"
  proof -
    fix s and item :: frontier_item and link rc
    assume a: "gate_inv e cfg s" "gate_item e cfg item"
    from process_link_results [of e cfg item rc link s] obtain r where
      r: "results (fst (process_link e cfg item rc link s)) = results s @ [r]" "lr_depth r = fi_depth item"
         "lr_sourceUrl r = fi_url item"
      by blast
    with process_link_queue [of e cfg item rc link s] a
    show "gate_inv e cfg (fst (process_link e cfg item rc link s))"
      by (auto simp: gate_inv_def gate_item_def)
  qed
  show "\<And>s item msg. gate_inv e cfg s \<Longrightarrow> gate_item e cfg item
      \<Longrightarrow> gate_inv e cfg (push_error e item msg s)"
  proof -
    fix s and item :: frontier_item and msg
    assume a: "gate_inv e cfg s" "gate_item e cfg item"
    from push_error_trace [of e item msg s] a(2) obtain r where
      r: "results (push_error e item msg s) = results s @ [r]" "lr_depth r = fi_depth item"
         "lr_sourceUrl r = fi_url item"
      by (auto simp: gate_item_def)
    moreover have "queue (push_error e item msg s) = queue s"
      by (simp add: push_error_def Let_def)
    ultimately show "gate_inv e cfg (push_error e item msg s)"
      using a by (auto simp: gate_inv_def gate_item_def)
  qed
qed

lemma seed_stream_gate:
  assumes "\<forall>i \<in> set (fst qv). isAllowedUrl e (fi_url i) \<and> fi_depth i = 0 \<and> fi_sourceUrl i = None"
  shows "\<forall>i \<in> set (fst (seed_stream e us qv)). isAllowedUrl e (fi_url i) \<and> fi_depth i = 0 \<and> fi_sourceUrl i = None"
  using assms
proof (induction us arbitrary: qv)
  case Nil
  then show ?case by simp
next
  case (Cons u us)
  obtain q v where qv: "qv = (q, v)" by (cases qv)
  with Cons.prems have q0: "\<forall>i\<in>set q. isAllowedUrl e (fi_url i) \<and> fi_depth i = 0 \<and> fi_sourceUrl i = None"
    by simp
  show ?case
  proof (cases "normalizeUrl e u None")
    case None
    with Cons.IH [of "(q, v)"] q0 show ?thesis unfolding qv by simp
  next
    case (Some normalized)
    show ?thesis
    proof (cases "normalized \<noteq> [] \<and> normalized \<notin> set v \<and> isAllowedUrl e normalized")
      case True
      have "\<forall>i\<in>set (fst (q @ [\<lparr>fi_url = normalized, fi_depth = 0, fi_sourceUrl = None\<rparr>], v @ [normalized])).
          isAllowedUrl e (fi_url i) \<and> fi_depth i = 0 \<and> fi_sourceUrl i = None"
        using q0 True by simp
      from Cons.IH [OF this] Some True show ?thesis unfolding qv by simp
    next
      case False
      with Cons.IH [of "(q, v)"] q0 Some show ?thesis unfolding qv by auto
    qed
  qed
qed

text \<open>
  Claim C3, as amended. In the streaming handler a URL that the gate rejects is never put on
  the frontier by the seed loop, so it is not fetched as a seed: no result of depth 0 has it
  as its \<^verbatim>\<open>sourceUrl\<close>, and in a crawl that is not recursive no result at all has.
\<close>

theorem rejected_seed_not_a_seed_page:
  assumes "\<not> isAllowedUrl e u"
  shows "u \<notin> fi_url ` set (fst (seed_stream e (urls body) ([], [])))
    \<and> (\<forall>r \<in> set (results (scrape_links_stream e body)). lr_depth r = 0 \<longrightarrow> lr_sourceUrl r \<noteq> u)
    \<and> (\<not> recursive body \<longrightarrow> (\<forall>r \<in> set (results (scrape_links_stream e body)). lr_sourceUrl r \<noteq> u))"
proof -
  define qv where "qv = seed_stream e (urls body) ([], [])"
  define cfg where "cfg = stream_config e body"
  have seeds: "\<forall>i \<in> set (fst qv). isAllowedUrl e (fi_url i) \<and> fi_depth i = 0 \<and> fi_sourceUrl i = None"
    unfolding qv_def by (rule seed_stream_gate) simp
  then have "gate_inv e cfg \<lparr>results = [], visited = snd qv, queue = fst qv,
      trace = emit e [] (EvLog info (''Starting crawl with '' @ show_nat (length (fst qv)) @ '' seed URL(s)''))\<rparr>"
    by (simp add: gate_inv_def)
  then obtain st tr where st: "gate_inv e cfg st" "run_crawl e cfg qv = st\<lparr>trace := tr\<rparr>"
    by (rule run_crawl_invariant [where P = "gate_inv e cfg" and cfg = cfg]) (rule gate_inv_step)
  have run: "scrape_links_stream e body = run_crawl e cfg qv"
    by (simp add: scrape_links_stream_def qv_def cfg_def)
  have rec: "c_recursive cfg = recursive body"
    by (simp add: cfg_def stream_config_def)
  from seeds assms have "u \<notin> fi_url ` set (fst qv)" by auto
  with st(1) assms show ?thesis
    unfolding run st(2) qv_def [symmetric] by (auto simp: gate_inv_def rec)
qed

text \<open>
  Claim C3 as stated fails: a rejected seed that a fetched page links to is resolved with a
  \<^verbatim>\<open>HEAD\<close> request and reported as the \<^verbatim>\<open>targetUrl\<close> of a result.
\<close>

theorem rejected_seed_not_a_seed_page_counterexample:
  "\<not> isAllowedUrl loopback_link_site ''http://127.0.0.1/''
   \<and> normalizeUrl loopback_link_site ''http://127.0.0.1/'' None = Some ''http://127.0.0.1/''
   \<and> map lr_targetUrl (emitted_results (trace (scrape_links_stream loopback_link_site
        (crawl_request [''http://127.0.0.1/'', ''https://example.com/a'']))))
       = [''http://127.0.0.1/'']
   \<and> filter is_network (trace (scrape_links_stream loopback_link_site
        (crawl_request [''http://127.0.0.1/'', ''https://example.com/a''])))
       = [EvGet ''https://example.com/a'' 0 (ok_page page_l),
          EvHead ''http://127.0.0.1/'' (Inl (JsError ''TypeError'' ''fetch failed'')),
          EvSleep (Ms 250)]"
  by code_simp

theorem rejected_seed_not_a_seed_page_witness:
  "\<not> isAllowedUrl small_site ''http://127.0.0.1/''
   \<and> fst (seed_stream small_site (urls (crawl_request [''http://127.0.0.1/'', ''https://example.com/a''])) ([], []))
       = [\<lparr>fi_url = ''https://example.com/a'', fi_depth = 0, fi_sourceUrl = None\<rparr>]
   \<and> map lr_sourceUrl (results (scrape_links_stream small_site
        (crawl_request [''http://127.0.0.1/'', ''https://example.com/a''])))
       = [''https://example.com/a'', ''https://example.com/a'', ''https://example.com/b'']
   \<and> ''http://127.0.0.1/'' \<notin> fi_url ` set (fst (seed_stream small_site
        (urls (crawl_request [''http://127.0.0.1/'', ''https://example.com/a''])) ([], [])))
   \<and> \<not> recursive ((crawl_request [''http://127.0.0.1/'', ''https://example.com/a''])\<lparr>recursive := False\<rparr>)
   \<and> map lr_sourceUrl (results (scrape_links_stream small_site
        ((crawl_request [''http://127.0.0.1/'', ''https://example.com/a''])\<lparr>recursive := False\<rparr>)))
       = [''https://example.com/a'', ''https://example.com/a'']"
proof -
  have g: "\<not> isAllowedUrl small_site ''http://127.0.0.1/''" by code_simp
  have a: "fst (seed_stream small_site (urls (crawl_request [''http://127.0.0.1/'', ''https://example.com/a''])) ([], []))
       = [\<lparr>fi_url = ''https://example.com/a'', fi_depth = 0, fi_sourceUrl = None\<rparr>]"
    "map lr_sourceUrl (results (scrape_links_stream small_site
        (crawl_request [''http://127.0.0.1/'', ''https://example.com/a''])))
       = [''https://example.com/a'', ''https://example.com/a'', ''https://example.com/b'']"
    "map lr_sourceUrl (results (scrape_links_stream small_site
        ((crawl_request [''http://127.0.0.1/'', ''https://example.com/a''])\<lparr>recursive := False\<rparr>)))
       = [''https://example.com/a'', ''https://example.com/a'']"
    by code_simp+
  from rejected_seed_not_a_seed_page [OF g, of "crawl_request [''http://127.0.0.1/'', ''https://example.com/a'']"]
    rejected_seed_not_a_seed_page [OF g,
      of "(crawl_request [''http://127.0.0.1/'', ''https://example.com/a''])\<lparr>recursive := False\<rparr>"] a g
  show ?thesis by simp
qed

section \<open>The rate limit\<close>

text \<open>
  Claim C7 asks for the rate-limit sleep before every page fetch but the first. The loop
  sleeps only when \<^verbatim>\<open>results.length > 0\<close>: after pages that gave no result the next fetch
  follows at once. Two seeds whose pages have no links are fetched back to back, in both
  handlers; no timer is waited on in the whole crawl.
\<close>

theorem second_fetch_without_delay:
  "trace (scrape_links_stream two_empty_pages (crawl_request [''https://example.com/a'', ''https://example.com/b''])) =
     [EvLog info ''Starting crawl with 2 seed URL(s)'',
      EvProgress 0 2 ''https://example.com/a'',
      EvLog progress ''Fetching https://example.com/a (depth: 0)'',
      EvGet ''https://example.com/a'' 0 (ok_page []),
      EvLog success ''Found 0 links on https://example.com/a'',
      EvProgress 0 1 ''https://example.com/b'',
      EvLog progress ''Fetching https://example.com/b (depth: 0)'',
      EvGet ''https://example.com/b'' 0 (ok_page []),
      EvLog success ''Found 0 links on https://example.com/b'',
      EvDone 0 2,
      EvLog success ''Crawl complete: 0 links found'']
   \<and> filter is_network (trace (scrape_links_legacy two_empty_pages
         (crawl_request [''https://example.com/a'', ''https://example.com/b''])))
       = [EvGet ''https://example.com/a'' 0 (ok_page []), EvGet ''https://example.com/b'' 0 (ok_page [])]"
  by code_simp

section \<open>The length guard of the URL filter\<close>

text \<open>
  The streaming handler ignores a filter of more than 200 characters and applies a shorter
  one that compiles, to the pages it fetches and to the links it reports.
\<close>

lemma stream_ignores_long_filter:
  "200 < length f \<Longrightarrow>
   scrape_links_stream e (body\<lparr>urlFilter := Some f\<rparr>) = scrape_links_stream e (body\<lparr>urlFilter := None\<rparr>)"
  by (simp add: scrape_links_stream_def stream_config_def stream_urlFilterRegex_def
      effective_maxUrls_def effective_rateLimit_def stream_settings_def)

lemma filter_inv_step:
  assumes "c_urlFilterRegex cfg = Some test" "filter_inv test st" "crawl_continues e cfg st"
  shows "filter_inv test (crawl_step e cfg st)"
proof (rule crawl_step_preserves [where P = "filter_inv test" and Q = "\<lambda>item. fi_sourceUrl item = None", OF assms(2,3)])
  show "\<And>s es. filter_inv test s \<Longrightarrow> filter_inv test (s\<lparr>trace := trace s @ es\<rparr>)"
    by (simp add: filter_inv_def)
  show "\<And>s item rest. filter_inv test s \<Longrightarrow> queue s = item # rest
      \<Longrightarrow> filter_inv test (s\<lparr>queue := rest\<rparr>) \<and> fi_sourceUrl item = None"
    by (simp add: filter_inv_def)
  show "\<And>s item link rc. filter_inv test s \<Longrightarrow> \<not> filtered_out e cfg (fi_url item)
      \<Longrightarrow> \<not> filtered_out e cfg (li_targetUrl link)
      \<Longrightarrow> filter_inv test (fst (process_link e cfg item rc link s))"
  proof -
    fix s and item :: frontier_item and link :: link_info and rc
    assume a: "filter_inv test s" "\<not> filtered_out e cfg (fi_url item)" "\<not> filtered_out e cfg (li_targetUrl link)"
    then have t: "test (fi_url item)" "test (li_targetUrl link)"
      using assms(1) by (auto simp: filtered_out_def split: if_splits)
    from process_link_results [of e cfg item rc link s] obtain r where
      r: "results (fst (process_link e cfg item rc link s)) = results s @ [r]"
         "lr_sourceUrl r = fi_url item" "lr_targetUrl r = li_targetUrl link"
      by blast
    with process_link_queue [of e cfg item rc link s] a(1) t
    show "filter_inv test (fst (process_link e cfg item rc link s))"
      by (auto simp: filter_inv_def)
  qed
  show "\<And>s item msg. filter_inv test s \<Longrightarrow> fi_sourceUrl item = None \<Longrightarrow> \<not> filtered_out e cfg (fi_url item)
      \<Longrightarrow> filter_inv test (push_error e item msg s)"
  proof -
    fix s and item :: frontier_item and msg
    assume a: "filter_inv test s" "fi_sourceUrl item = None" "\<not> filtered_out e cfg (fi_url item)"
    then have t: "test (fi_url item)"
      using assms(1) by (auto simp: filtered_out_def split: if_splits)
    from push_error_trace [of e item msg s] a(2) obtain r where
      r: "results (push_error e item msg s) = results s @ [r]"
         "lr_sourceUrl r = fi_url item" "lr_targetUrl r = fi_url item"
      by auto
    moreover have "queue (push_error e item msg s) = queue s"
      by (simp add: push_error_def Let_def)
    ultimately show "filter_inv test (push_error e item msg s)"
      using a(1) t by (auto simp: filter_inv_def)
  qed
qed

lemma stream_applies_short_filter:
  assumes "f \<noteq> []" "length f \<le> 200" "compileRegExp e f = Some test" "urlFilter body = Some f"
  shows "\<forall>r \<in> set (results (scrape_links_stream e body)). test (lr_sourceUrl r) \<and> test (lr_targetUrl r)"
proof -
  define qv where "qv = seed_stream e (urls body) ([], [])"
  define cfg where "cfg = stream_config e body"
  have re: "c_urlFilterRegex cfg = Some test"
    using assms by (simp add: cfg_def stream_config_def stream_urlFilterRegex_def)
  have "\<forall>i \<in> set (fst qv). fi_sourceUrl i = None"
    unfolding qv_def by (rule seed_stream_source) simp
  then have "filter_inv test \<lparr>results = [], visited = snd qv, queue = fst qv,
      trace = emit e [] (EvLog info (''Starting crawl with '' @ show_nat (length (fst qv)) @ '' seed URL(s)''))\<rparr>"
    by (simp add: filter_inv_def)
  then obtain st tr where st: "filter_inv test st" "run_crawl e cfg qv = st\<lparr>trace := tr\<rparr>"
    by (rule run_crawl_invariant [where P = "filter_inv test" and cfg = cfg]) (rule filter_inv_step [OF re])
  then show ?thesis
    by (simp add: scrape_links_stream_def qv_def cfg_def filter_inv_def)
qed

text \<open>
  Claim C8 asks that a filter of 201 characters be ignored. The older handler has no length
  guard: it compiles the filter and applies it, so the seed, which does not match, is
  dropped and nothing is fetched, where the streaming handler crawls the site unfiltered.
  A filter of 200 characters is applied by both.
\<close>

theorem legacy_applies_long_filter:
  "length (replicate 201 CHR ''a'') = 201
   \<and> compileRegExp small_site (replicate 201 CHR ''a'') \<noteq> None
   \<and> results (scrape_links_legacy small_site
        ((crawl_request [''https://example.com/a''])\<lparr>urlFilter := Some (replicate 201 CHR ''a'')\<rparr>)) = []
   \<and> filter is_network (trace (scrape_links_legacy small_site
        ((crawl_request [''https://example.com/a''])\<lparr>urlFilter := Some (replicate 201 CHR ''a'')\<rparr>))) = []
   \<and> map lr_targetUrl (results (scrape_links_stream small_site
        ((crawl_request [''https://example.com/a''])\<lparr>urlFilter := Some (replicate 201 CHR ''a'')\<rparr>)))
       = [''https://example.com/b'', ''https://other.com/c'', ''https://other.com/d'']
   \<and> results (scrape_links_stream small_site
        ((crawl_request [''https://example.com/a''])\<lparr>urlFilter := Some (replicate 200 CHR ''a'')\<rparr>)) = []
   \<and> map lr_targetUrl (results (scrape_links_legacy small_site
        ((crawl_request [''https://example.com/a''])\<lparr>urlFilter := None\<rparr>)))
       = [''https://example.com/b'', ''https://other.com/c'', ''https://other.com/d'']"
  by code_simp

end
